theory Spec2Isabelle
  imports Main
begin

section \<open>The 2048 engine of \<open>game.py\<close>\<close>

text \<open>
  The class \<open>Game2048\<close> is embedded as a record of its fields together with one function
  per method. Methods that mutate \<open>self\<close> take the game and return the updated game.
  Python integers are unbounded, so tile values and the score are \<open>int\<close>. The field
  \<open>size\<close> is a natural number: every use of it in the class (\<open>range(size)\<close>,
  \<open>[0] * (size - n)\<close>, \<open>c + 1 < size\<close>) treats a negative size as zero. The field
  \<open>use_color\<close> and the colour table only serve \<open>print_board\<close> and are left out.
\<close>

subsection \<open>Data model\<close>

record game =
  size_g :: nat
  board :: "int list list"
  score :: int
  win_value :: int
  game_won :: bool

text \<open>A list index out of range raises \<open>IndexError\<close> in Python.\<close>

datatype error = IndexError

text \<open>
  The two draws of \<open>add_new_tile\<close>: the position \<open>random.choice\<close> selects in the list of
  empty cells (any position can come out; the number is taken modulo the length of the
  list) and whether \<open>random.random() < 0.1\<close> held.
\<close>

type_synonym draw = "nat \<times> bool"

subsection \<open>Reading the board\<close>

text \<open>\<open>self.board[r][c]\<close> for non-negative \<open>r\<close> and \<open>c\<close>.\<close>

definition cell :: "int list list \<Rightarrow> nat \<Rightarrow> nat \<Rightarrow> error + int" where
  "cell b r c =
     (if r < length b then
        (if c < length (b ! r) then Inr (b ! r ! c) else Inl IndexError)
      else Inl IndexError)"

text \<open>
  The coordinates visited by \<open>for r in range(size): for c in range(size)\<close>, in the
  order of the visit.
\<close>

definition coords :: "nat \<Rightarrow> (nat \<times> nat) list" where
  "coords n = List.product [0..<n] [0..<n]"

subsection \<open>\<open>add_new_tile\<close>\<close>

text \<open>The first loop of \<open>add_new_tile\<close>: the empty cells in the order of the scan.\<close>

fun collect_empty :: "int list list \<Rightarrow> (nat \<times> nat) list \<Rightarrow> error + (nat \<times> nat) list" where
  "collect_empty b [] = Inr []"
| "collect_empty b ((r, c) # rest) =
     (case cell b r c of
        Inl e \<Rightarrow> Inl e
      | Inr v \<Rightarrow>
          (case collect_empty b rest of
             Inl e \<Rightarrow> Inl e
           | Inr es \<Rightarrow> Inr (if v = 0 then (r, c) # es else es)))"

definition empty_cells :: "game \<Rightarrow> error + (nat \<times> nat) list" where
  "empty_cells g = collect_empty (board g) (coords (size_g g))"

definition add_new_tile :: "draw \<Rightarrow> game \<Rightarrow> error + game" where
  "add_new_tile d g =
     (case empty_cells g of
        Inl e \<Rightarrow> Inl e
      | Inr es \<Rightarrow>
          if es = [] then Inr g
          else
            (case es ! (fst d mod length es) of
               (r, c) \<Rightarrow>
                 Inr (g\<lparr>board := (board g)
                        [r := (board g ! r)[c := (if snd d then 4 else 2)]]\<rparr>)))"

subsection \<open>Construction\<close>

definition init :: "nat \<Rightarrow> draw \<Rightarrow> draw \<Rightarrow> error + game" where
  "init n d1 d2 =
     (case add_new_tile d1
             \<lparr>size_g = n, board = replicate n (replicate n 0), score = 0,
              win_value = 2048, game_won = False\<rparr> of
        Inl e \<Rightarrow> Inl e
      | Inr g \<Rightarrow> add_new_tile d2 g)"

subsection \<open>\<open>is_game_over\<close>\<close>

text \<open>The first pair of loops: \<open>True\<close> when a cell equal to 0 is met.\<close>

fun scan_empty :: "int list list \<Rightarrow> (nat \<times> nat) list \<Rightarrow> error + bool" where
  "scan_empty b [] = Inr False"
| "scan_empty b ((r, c) # rest) =
     (case cell b r c of
        Inl e \<Rightarrow> Inl e
      | Inr v \<Rightarrow> if v = 0 then Inr True else scan_empty b rest)"

text \<open>\<open>self.board[r][c] == self.board[r'][c']\<close>, the left operand read first.\<close>

definition cells_equal :: "int list list \<Rightarrow> nat \<Rightarrow> nat \<Rightarrow> nat \<Rightarrow> nat \<Rightarrow> error + bool" where
  "cells_equal b r c r' c' =
     (case cell b r c of
        Inl e \<Rightarrow> Inl e
      | Inr x \<Rightarrow> (case cell b r' c' of Inl e \<Rightarrow> Inl e | Inr y \<Rightarrow> Inr (x = y)))"

text \<open>
  The second pair of loops: \<open>True\<close> when a cell equal to its right or lower neighbour
  is met. The bound test comes first and short-circuits the comparison.
\<close>

fun scan_pairs :: "nat \<Rightarrow> int list list \<Rightarrow> (nat \<times> nat) list \<Rightarrow> error + bool" where
  "scan_pairs n b [] = Inr False"
| "scan_pairs n b ((r, c) # rest) =
     (case (if c + 1 < n then cells_equal b r c r (c + 1) else Inr False) of
        Inl e \<Rightarrow> Inl e
      | Inr True \<Rightarrow> Inr True
      | Inr False \<Rightarrow>
          (case (if r + 1 < n then cells_equal b r c (r + 1) c else Inr False) of
             Inl e \<Rightarrow> Inl e
           | Inr True \<Rightarrow> Inr True
           | Inr False \<Rightarrow> scan_pairs n b rest))"

definition is_game_over :: "game \<Rightarrow> error + bool" where
  "is_game_over g =
     (case scan_empty (board g) (coords (size_g g)) of
        Inl e \<Rightarrow> Inl e
      | Inr True \<Rightarrow> Inr False
      | Inr False \<Rightarrow>
          (case scan_pairs (size_g g) (board g) (coords (size_g g)) of
             Inl e \<Rightarrow> Inl e
           | Inr True \<Rightarrow> Inr False
           | Inr False \<Rightarrow> Inr True))"

subsection \<open>The helpers of \<open>move\<close>\<close>

text \<open>\<open>[i for i in row if i != 0]\<close>\<close>

definition compress :: "int list \<Rightarrow> int list" where
  "compress row = filter (\<lambda>i. i \<noteq> 0) row"

text \<open>
  The \<open>while\<close> loop of \<open>_move_left\<close> over one compressed row, with its index \<open>i\<close> and the
  row built so far. It updates \<open>self.score\<close> and \<open>self.game_won\<close> on the way.
\<close>

function merge_while :: "int list \<Rightarrow> nat \<Rightarrow> int list \<Rightarrow> game \<Rightarrow> int list \<times> game" where
  "merge_while compressed_row i merged_row g =
     (if i < length compressed_row then
        (if i + 1 < length compressed_row \<and> compressed_row ! i = compressed_row ! (i + 1) then
           (let merged_val = compressed_row ! i * 2;
                g1 = g\<lparr>score := score g + merged_val\<rparr>;
                g2 = (if \<not> game_won g1 \<and> merged_val = win_value g1
                      then g1\<lparr>game_won := True\<rparr> else g1)
            in merge_while compressed_row (i + 2) (merged_row @ [merged_val]) g2)
         else merge_while compressed_row (i + 1) (merged_row @ [compressed_row ! i]) g)
      else (merged_row, g))"
  by pat_completeness auto
termination
  by (relation "measure (\<lambda>(cr, i, m, g). length cr - i)") auto

declare merge_while.simps [simp del]

text \<open>The body of the \<open>for row in board\<close> loop of \<open>_move_left\<close>.\<close>

definition move_left_row :: "int list \<Rightarrow> game \<Rightarrow> int list \<times> game" where
  "move_left_row row g =
     (case merge_while (compress row) 0 [] g of
        (merged_row, g') \<Rightarrow>
          (merged_row @ replicate (size_g g' - length merged_row) 0, g'))"

fun move_left :: "int list list \<Rightarrow> game \<Rightarrow> int list list \<times> game" where
  "move_left [] g = ([], g)"
| "move_left (row # rows) g =
     (case move_left_row row g of
        (new_row, g1) \<Rightarrow>
          (case move_left rows g1 of
             (new_rows, g2) \<Rightarrow> (new_row # new_rows, g2)))"

text \<open>
  \<open>zip(*board)\<close> stops at the shortest row, and yields nothing for an empty board.
\<close>

fun min_len :: "int list list \<Rightarrow> nat" where
  "min_len [] = 0"
| "min_len [row] = length row"
| "min_len (row # rows) = min (length row) (min_len rows)"

definition transpose_b :: "int list list \<Rightarrow> int list list" where
  "transpose_b b = map (\<lambda>j. map (\<lambda>row. row ! j) b) [0..<min_len b]"

text \<open>\<open>[row[::-1] for row in board]\<close>\<close>

definition reverse_b :: "int list list \<Rightarrow> int list list" where
  "reverse_b b = map rev b"

subsection \<open>\<open>move\<close>\<close>

text \<open>
  The chain of \<open>if\<close>/\<open>elif\<close> of \<open>move\<close> that rewrites \<open>self.board\<close>; \<open>None\<close> is its
  \<open>else\<close> branch, taken for any other direction.
\<close>

definition move_board :: "string \<Rightarrow> game \<Rightarrow> game option" where
  "move_board direction g =
     (if direction = ''w'' then
        (case move_left (transpose_b (board g)) g of
           (temp_board, g') \<Rightarrow> Some (g'\<lparr>board := transpose_b temp_board\<rparr>))
      else if direction = ''s'' then
        (case move_left (reverse_b (transpose_b (board g))) g of
           (temp_board, g') \<Rightarrow> Some (g'\<lparr>board := transpose_b (reverse_b temp_board)\<rparr>))
      else if direction = ''a'' then
        (case move_left (board g) g of
           (temp_board, g') \<Rightarrow> Some (g'\<lparr>board := temp_board\<rparr>))
      else if direction = ''d'' then
        (case move_left (reverse_b (board g)) g of
           (temp_board, g') \<Rightarrow> Some (g'\<lparr>board := reverse_b temp_board\<rparr>))
      else None)"

definition move :: "string \<Rightarrow> draw \<Rightarrow> game \<Rightarrow> error + (bool \<times> game)" where
  "move direction d g =
     (let original_board = board g in
      case move_board direction g of
        None \<Rightarrow> Inr (False, g)
      | Some g' \<Rightarrow>
          if board g' = original_board then Inr (False, g')
          else (case add_new_tile d g' of
                  Inl e \<Rightarrow> Inl e
                | Inr g'' \<Rightarrow> Inr (True, g'')))"

section \<open>Vocabulary of the properties\<close>

subsection \<open>Directions and board shape\<close>

definition valid_direction :: "string \<Rightarrow> bool" where
  "valid_direction direction = (direction \<in> {''w'', ''s'', ''a'', ''d''})"

text \<open>An \<open>n\<close> by \<open>n\<close> grid: \<open>n\<close> rows of \<open>n\<close> cells each.\<close>

definition wf_board :: "nat \<Rightarrow> int list list \<Rightarrow> bool" where
  "wf_board n b = (length b = n \<and> list_all (\<lambda>row. length row = n) b)"

text \<open>
  The shape invariant of the class: the board is \<open>size\<close> by \<open>size\<close>. The constructor
  establishes it and every method keeps it (\<open>reachable_invariant\<close> below).
\<close>

definition square :: "game \<Rightarrow> bool" where
  "square g = wf_board (size_g g) (board g)"

text \<open>The values that occur on a board.\<close>

definition cells :: "int list list \<Rightarrow> int set" where
  "cells b = (\<Union>row\<in>set b. set row)"

text \<open>The board handed to \<open>_move_left\<close> in each branch of \<open>move\<close>, and the way back.\<close>

definition to_left :: "string \<Rightarrow> int list list \<Rightarrow> int list list" where
  "to_left direction b =
     (if direction = ''w'' then transpose_b b
      else if direction = ''s'' then reverse_b (transpose_b b)
      else if direction = ''a'' then b
      else reverse_b b)"

definition from_left :: "string \<Rightarrow> int list list \<Rightarrow> int list list" where
  "from_left direction t =
     (if direction = ''w'' then transpose_b t
      else if direction = ''s'' then transpose_b (reverse_b t)
      else if direction = ''a'' then t
      else reverse_b t)"

subsection \<open>The line reducer, as the specification words it\<close>

text \<open>
  One left-to-right pass over a row without zeros: two equal neighbours become one cell
  of twice the value and the scan resumes behind the pair, so that a cell produced by a
  merge is never merged again.
\<close>

fun merge_pairs :: "int list \<Rightarrow> int list" where
  "merge_pairs [] = []"
| "merge_pairs [x] = [x]"
| "merge_pairs (x # y # rest) =
     (if x = y then x * 2 # merge_pairs rest else x # merge_pairs (y # rest))"

text \<open>Remove the zeros, merge, pad on the right with zeros up to length \<open>n\<close>.\<close>

definition line_reducer :: "nat \<Rightarrow> int list \<Rightarrow> int list" where
  "line_reducer n row =
     (let compressed = filter (\<lambda>v. v \<noteq> 0) row;
          merged = merge_pairs compressed
      in merged @ replicate (n - length merged) 0)"

text \<open>The values of the cells produced by the merges of that pass, in order.\<close>

fun merged_vals :: "int list \<Rightarrow> int list" where
  "merged_vals [] = []"
| "merged_vals [x] = []"
| "merged_vals (x # y # rest) =
     (if x = y then x * 2 # merged_vals rest else merged_vals (y # rest))"

text \<open>
  What a sequence of merges with the values \<open>vs\<close> does to the score and the win flag.
\<close>

definition credit :: "int list \<Rightarrow> game \<Rightarrow> game" where
  "credit vs g = g\<lparr>score := score g + sum_list vs,
                   game_won := game_won g \<or> win_value g \<in> set vs\<rparr>"

text \<open>The merged values of all rows of a board, and of a whole call of \<open>move\<close>.\<close>

definition merges :: "int list list \<Rightarrow> int list" where
  "merges b = concat (map (\<lambda>row. merged_vals (compress row)) b)"

definition move_merges :: "string \<Rightarrow> game \<Rightarrow> int list" where
  "move_merges direction g =
     (if valid_direction direction then merges (to_left direction (board g)) else [])"

text \<open>
  A row holds two equal non-zero neighbours; a board does so along a direction when one
  of its lines, read the way \<open>move\<close> hands them to \<open>_move_left\<close>, does.
\<close>

fun mergeable_row :: "int list \<Rightarrow> bool" where
  "mergeable_row (x # y # rest) = ((x \<noteq> 0 \<and> x = y) \<or> mergeable_row (y # rest))"
| "mergeable_row row = False"

definition mergeable :: "string \<Rightarrow> int list list \<Rightarrow> bool" where
  "mergeable direction b = list_ex mergeable_row (to_left direction b)"

subsection \<open>Counting and classifying cells\<close>

text \<open>The number of non-zero entries of a row, and of a board.\<close>

definition nonzeros :: "int list \<Rightarrow> nat" where
  "nonzeros row = length (filter (\<lambda>v. v \<noteq> 0) row)"

definition nz_count :: "int list list \<Rightarrow> nat" where
  "nz_count b = sum_list (map nonzeros b)"

text \<open>The number of empty cells of a board.\<close>

definition empty_count :: "int list list \<Rightarrow> nat" where
  "empty_count b = length (filter (\<lambda>v. v = 0) (concat b))"

text \<open>Some cell equals its right or its lower neighbour.\<close>

definition adjacent_equal :: "nat \<Rightarrow> int list list \<Rightarrow> bool" where
  "adjacent_equal n b =
     list_ex (\<lambda>(r, c). (c + 1 < n \<and> b ! r ! c = b ! r ! (c + 1)) \<or>
                        (r + 1 < n \<and> b ! r ! c = b ! (r + 1) ! c)) (coords n)"

text \<open>
  A tile is 0 or \<open>2 ^ k\<close> with \<open>k \<ge> 1\<close>. The exponent is searched below the value, which
  keeps the predicate computable; \<open>valid_tile_iff\<close> removes the bound.
\<close>

definition valid_tile :: "int \<Rightarrow> bool" where
  "valid_tile v = (v = 0 \<or> list_ex (\<lambda>k. v = 2 ^ k) [1..<nat v])"

definition valid_board :: "int list list \<Rightarrow> bool" where
  "valid_board b = list_all (list_all valid_tile) b"

subsection \<open>Reachable games\<close>

text \<open>
  The games a caller can obtain: from the constructor, then through \<open>add_new_tile\<close> and
  \<open>move\<close> (\<open>is_game_over\<close> and \<open>print_board\<close> do not write).
\<close>

inductive reachable :: "game \<Rightarrow> bool" where
  reach_init: "init n d1 d2 = Inr g \<Longrightarrow> reachable g"
| reach_spawn: "reachable g \<Longrightarrow> add_new_tile d g = Inr g' \<Longrightarrow> reachable g'"
| reach_move: "reachable g \<Longrightarrow> move direction d g = Inr (moved, g') \<Longrightarrow> reachable g'"

section \<open>The merge loop\<close>

text \<open>
  The loop of \<open>_move_left\<close> computes the pass \<open>merge_pairs\<close> and credits the merged
  values to the score and the win flag.
\<close>

lemma credit_Nil [simp]: "credit [] g = g"
  by (simp add: credit_def)

lemma credit_fields [simp]:
  "size_g (credit vs g) = size_g g"
  "board (credit vs g) = board g"
  "win_value (credit vs g) = win_value g"
  "score (credit vs g) = score g + sum_list vs"
  "game_won (credit vs g) = (game_won g \<or> win_value g \<in> set vs)"
  by (simp_all add: credit_def)

lemma credit_credit: "credit ws (credit vs g) = credit (vs @ ws) g"
  by (auto simp: credit_def)

lemma merge_while_eq:
  "merge_while cr i acc g =
     (acc @ merge_pairs (drop i cr), credit (merged_vals (drop i cr)) g)"
proof (induction cr i acc g rule: merge_while.induct)
  case (1 cr i acc g)
  show ?case
  proof (cases "i < length cr")
    case False
    then show ?thesis by (subst merge_while.simps) simp
  next
    case True
    note lt = True
    show ?thesis
    proof (cases "i + 1 < length cr \<and> cr ! i = cr ! (i + 1)")
      case True
      then have d: "drop i cr = cr ! i # cr ! i # drop (i + 2) cr"
        using lt by (metis Cons_nth_drop_Suc Suc_eq_plus1 add_2_eq_Suc')
      have "merge_while cr i acc g = merge_while cr (i + 2) (acc @ [cr ! i * 2])
              (if \<not> game_won g \<and> cr ! i * 2 = win_value g
               then g\<lparr>score := score g + cr ! i * 2, game_won := True\<rparr>
               else g\<lparr>score := score g + cr ! i * 2\<rparr>)"
        using lt True by (subst merge_while.simps) (simp add: Let_def)
      also have "\<dots> = (acc @ [cr ! i * 2] @ merge_pairs (drop (i + 2) cr),
                       credit (merged_vals (drop (i + 2) cr)) (credit [cr ! i * 2] g))"
        using "1.IH"(1) [OF lt True refl refl refl]
        by (auto simp: credit_def)
      finally show ?thesis
        by (simp add: d credit_credit)
    next
      case False
      have d: "drop i cr = cr ! i # drop (i + 1) cr"
        using lt by (simp add: Cons_nth_drop_Suc)
      have step: "merge_while cr i acc g = merge_while cr (i + 1) (acc @ [cr ! i]) g"
        using lt False by (subst merge_while.simps) auto
      also have "\<dots> = ((acc @ [cr ! i]) @ merge_pairs (drop (i + 1) cr),
                       credit (merged_vals (drop (i + 1) cr)) g)"
        using "1.IH"(2) [OF lt False] .
      finally have eq: "merge_while cr i acc g =
          (acc @ cr ! i # merge_pairs (drop (Suc i) cr), credit (merged_vals (drop (Suc i) cr)) g)"
        by simp
      show ?thesis
      proof (cases "i + 1 < length cr")
        case True
        then have d': "drop (Suc i) cr = cr ! (i + 1) # drop (Suc (Suc i)) cr"
          by (simp add: Cons_nth_drop_Suc)
        from True False have "cr ! i \<noteq> cr ! (i + 1)" by simp
        then show ?thesis
          by (simp add: eq d d')
      next
        case False
        then have "drop (Suc i) cr = []" by simp
        then show ?thesis
          by (simp add: eq d)
      qed
    qed
  qed
qed

lemma line_reducer_eq:
  "line_reducer n row =
     merge_pairs (compress row) @ replicate (n - length (merge_pairs (compress row))) 0"
  by (simp add: line_reducer_def compress_def Let_def)

lemma move_left_row_eq:
  "move_left_row row g = (line_reducer (size_g g) row, credit (merged_vals (compress row)) g)"
  by (simp add: move_left_row_def merge_while_eq line_reducer_eq)

lemma move_left_eq:
  "move_left b g =
     (map (line_reducer (size_g g)) b, credit (concat (map (\<lambda>row. merged_vals (compress row)) b)) g)"
  by (induction b arbitrary: g) (simp_all add: move_left_row_eq credit_credit)

lemma move_left_eq2:
  "move_left b g = (map (line_reducer (size_g g)) b, credit (merges b) g)"
  by (simp add: move_left_eq merges_def)

section \<open>Rows\<close>

lemma length_merge_pairs:
  "length (merge_pairs xs) + length (merged_vals xs) = length xs"
  by (induction xs rule: merge_pairs.induct) auto

lemma merge_pairs_nonzero: "0 \<notin> set xs \<Longrightarrow> 0 \<notin> set (merge_pairs xs)"
  by (induction xs rule: merge_pairs.induct) auto

lemma sum_list_merge_pairs: "sum_list (merge_pairs xs) = sum_list xs"
  by (induction xs rule: merge_pairs.induct) auto

lemma merge_pairs_id: "merged_vals xs = [] \<Longrightarrow> merge_pairs xs = xs"
  by (induction xs rule: merge_pairs.induct) (auto split: if_splits)

lemma set_merge_pairs_subset: "set (merge_pairs xs) \<subseteq> set xs \<union> (\<lambda>v. v * 2) ` set xs"
  by (induction xs rule: merge_pairs.induct) auto

lemma compress_nonzero [simp]: "0 \<notin> set (compress row)"
  by (simp add: compress_def)

lemma compress_id: "0 \<notin> set xs \<Longrightarrow> compress xs = xs"
  by (induction xs) (auto simp: compress_def)

lemma compress_append_zeros [simp]: "compress (xs @ replicate k 0) = compress xs"
  by (induction k) (auto simp: compress_def replicate_append_same [symmetric] simp del: replicate_Suc)

lemma nonzeros_compress: "nonzeros row = length (compress row)"
  by (simp add: nonzeros_def compress_def)

lemma nonzeros_line_reducer:
  "nonzeros (line_reducer n row) = length (merge_pairs (compress row))"
proof -
  have "compress (line_reducer n row) = merge_pairs (compress row)"
    by (simp add: line_reducer_eq compress_id merge_pairs_nonzero)
  then show ?thesis by (simp add: nonzeros_compress)
qed

lemma nonzeros_line_reducer_le: "nonzeros (line_reducer n row) \<le> nonzeros row"
  using length_merge_pairs [of "compress row"]
  unfolding nonzeros_line_reducer nonzeros_compress [of row] by linarith

lemma nonzeros_line_reducer_merged:
  "nonzeros (line_reducer n row) + length (merged_vals (compress row)) = nonzeros row"
  using length_merge_pairs [of "compress row"]
  unfolding nonzeros_line_reducer nonzeros_compress [of row] .

lemma sum_list_compress: "sum_list (compress row) = sum_list row"
  by (induction row) (auto simp: compress_def)

lemma sum_list_line_reducer: "sum_list (line_reducer n row) = sum_list row"
  by (simp add: line_reducer_eq sum_list_merge_pairs sum_list_compress sum_list_replicate)

lemma set_line_reducer_subset:
  "set (line_reducer n row) \<subseteq> insert 0 (set row \<union> (\<lambda>v. v * 2) ` set row)"
proof -
  have "set (compress row) \<subseteq> set row" by (auto simp: compress_def)
  with set_merge_pairs_subset [of "compress row"]
  have "set (merge_pairs (compress row)) \<subseteq> set row \<union> (\<lambda>v. v * 2) ` set row" by blast
  then show ?thesis
    by (auto simp: line_reducer_eq)
qed

lemma line_reducer_fixed_no_merge:
  "line_reducer n row = row \<Longrightarrow> merged_vals (compress row) = []"
  using nonzeros_line_reducer_merged [of n row] by simp

lemma line_reducer_no_merge:
  "merged_vals (compress row) = [] \<Longrightarrow> line_reducer n row = compress row @ replicate (n - length (compress row)) 0"
  by (simp add: line_reducer_eq merge_pairs_id)

lemma line_reducer_idem:
  assumes "merged_vals (compress row) = []"
  shows "line_reducer n (line_reducer n row) = line_reducer n row"
proof -
  have 1: "line_reducer n row = compress row @ replicate (n - length (compress row)) 0"
    using assms by (rule line_reducer_no_merge)
  have "compress (line_reducer n row) = compress row"
    by (simp add: 1 compress_id)
  then show ?thesis
    using assms by (simp add: line_reducer_eq)
qed

lemma length_line_reducer_max:
  "length (line_reducer n row) = max n (length (merge_pairs (compress row)))"
  by (simp add: line_reducer_eq)

lemma length_line_reducer:
  "length row \<le> n \<Longrightarrow> length (line_reducer n row) = n"
proof -
  assume "length row \<le> n"
  moreover have "length (compress row) \<le> length row"
    by (simp add: compress_def)
  moreover note length_merge_pairs [of "compress row"]
  ultimately show ?thesis by (simp add: line_reducer_eq)
qed

lemma length_merge_pairs_compress_le: "length (merge_pairs (compress row)) \<le> length row"
proof -
  have "length (compress row) \<le> length row" by (simp add: compress_def)
  with length_merge_pairs [of "compress row"] show ?thesis by linarith
qed

lemma full_length_no_merge:
  assumes "length row \<le> length (merge_pairs (compress row))"
  shows "merged_vals (compress row) = []"
proof -
  have "length (compress row) \<le> length row" by (simp add: compress_def)
  with length_merge_pairs [of "compress row"] assms
  have "length (merged_vals (compress row)) = 0" by linarith
  then show ?thesis by simp
qed

lemma line_reducer_changed_has_zero:
  assumes len: "length row = n" and ch: "line_reducer n row \<noteq> row"
  shows "0 \<in> set (line_reducer n row)"
proof (rule ccontr)
  assume nz: "0 \<notin> set (line_reducer n row)"
  then have "n - length (merge_pairs (compress row)) = 0"
    by (auto simp: line_reducer_eq)
  moreover have "length (merge_pairs (compress row)) + length (merged_vals (compress row)) = length (compress row)"
    by (rule length_merge_pairs)
  moreover have "length (compress row) \<le> n"
    using len by (auto simp: compress_def)
  ultimately have "length (compress row) = n \<and> length (merged_vals (compress row)) = 0"
    by linarith
  then have a: "length (compress row) = n" and b: "merged_vals (compress row) = []"
    by simp_all
  from a len have "compress row = row"
    unfolding compress_def by (metis length_filter_less linorder_not_less order_refl filter_True)
  with b have "line_reducer n row = row"
    using len by (simp add: line_reducer_eq merge_pairs_id)
  with ch show False by simp
qed

lemma mergeable_row_zeros: "\<not> mergeable_row (replicate k 0)"
proof (induction k)
  case 0
  then show ?case by simp
next
  case (Suc k)
  then show ?case by (cases k) simp_all
qed

lemma mergeable_row_Cons_zeros: "\<not> mergeable_row (x # replicate k 0)"
  using mergeable_row_zeros [of k] by (cases k) auto

lemma mergeable_row_padded:
  "0 \<notin> set c \<Longrightarrow> mergeable_row (c @ replicate k 0) \<longleftrightarrow> merged_vals c \<noteq> []"
proof (induction c)
  case Nil
  then show ?case by (simp add: mergeable_row_zeros)
next
  case (Cons x c)
  show ?case
  proof (cases c)
    case Nil
    then show ?thesis by (simp add: mergeable_row_Cons_zeros)
  next
    case (Cons y rest)
    with Cons.IH Cons.prems show ?thesis by auto
  qed
qed

lemma line_reducer_twice_iff:
  "line_reducer n (line_reducer n row) = line_reducer n row
     \<longleftrightarrow> \<not> mergeable_row (line_reducer n row)"
proof -
  let ?c = "merge_pairs (compress row)"
  let ?row' = "line_reducer n row"
  have nz: "0 \<notin> set ?c" by (simp add: merge_pairs_nonzero)
  have row': "?row' = ?c @ replicate (n - length ?c) 0"
    by (simp add: line_reducer_eq)
  have c': "compress ?row' = ?c"
    by (simp add: row' compress_id [OF nz])
  have m: "mergeable_row ?row' \<longleftrightarrow> merged_vals ?c \<noteq> []"
    unfolding row' by (rule mergeable_row_padded [OF nz])
  show ?thesis
  proof
    assume "line_reducer n ?row' = ?row'"
    then have "merged_vals (compress ?row') = []" by (rule line_reducer_fixed_no_merge)
    then show "\<not> mergeable_row ?row'" by (simp add: m c')
  next
    assume "\<not> mergeable_row ?row'"
    then have "merged_vals (compress ?row') = []" by (simp add: m c')
    from line_reducer_no_merge [OF this, of n] show "line_reducer n ?row' = ?row'"
      by (simp add: c') (simp add: row')
  qed
qed

section \<open>Transposition and reversal\<close>

subsection \<open>Boards of any shape\<close>

lemma length_transpose_b: "length (transpose_b b) = min_len b"
  by (simp add: transpose_b_def)

lemma length_row_transpose_b: "row \<in> set (transpose_b b) \<Longrightarrow> length row = length b"
  by (auto simp: transpose_b_def)

lemma min_len_const:
  "b \<noteq> [] \<Longrightarrow> \<forall>row\<in>set b. length row = m \<Longrightarrow> min_len b = m"
  by (induction b rule: min_len.induct) auto

lemma min_len_le: "row \<in> set b \<Longrightarrow> min_len b \<le> length row"
  by (induction b rule: min_len.induct) auto

lemma min_len_attained: "b \<noteq> [] \<Longrightarrow> \<exists>row\<in>set b. length row = min_len b"
  by (induction b rule: min_len.induct) (auto simp: min_def)

lemma transpose_b_rect:
  assumes "b \<noteq> []" "\<forall>row\<in>set b. length row = c"
  shows "transpose_b b = map (\<lambda>j. map (\<lambda>row. row ! j) b) [0..<c]"
  using min_len_const [OF assms] by (simp add: transpose_b_def)

lemma transpose_b_twice_rect:
  assumes rows: "\<forall>row\<in>set m. length row = r" and r: "0 < r"
  shows "transpose_b (transpose_b m) = m"
proof (cases "m = []")
  case True
  then show ?thesis by (simp add: transpose_b_def)
next
  case False
  let ?t = "map (\<lambda>j. map (\<lambda>row. row ! j) m) [0..<r]"
  have t: "transpose_b m = ?t" by (rule transpose_b_rect [OF False rows])
  have tne: "?t \<noteq> []" using r by simp
  have trows: "\<forall>row\<in>set ?t. length row = length m" by auto
  have "transpose_b ?t = map (\<lambda>i. map (\<lambda>row. row ! i) ?t) [0..<length m]"
    by (rule transpose_b_rect [OF tne trows])
  also have "\<dots> = m"
  proof (rule nth_equalityI)
    show "length (map (\<lambda>i. map (\<lambda>row. row ! i) ?t) [0..<length m]) = length m" by simp
  next
    fix i assume "i < length (map (\<lambda>i. map (\<lambda>row. row ! i) ?t) [0..<length m])"
    then have i: "i < length m" by simp
    then have len: "length (m ! i) = r" using rows by simp
    show "map (\<lambda>i. map (\<lambda>row. row ! i) ?t) [0..<length m] ! i = m ! i"
      by (rule nth_equalityI) (use i len in \<open>simp_all\<close>)
  qed
  finally show ?thesis by (simp add: t)
qed

lemma reverse_b_twice: "reverse_b (reverse_b b) = b"
  by (simp add: reverse_b_def map_idI)

lemma cells_reverse_b: "cells (reverse_b b) = cells b"
  by (simp add: cells_def reverse_b_def)

lemma cells_transpose_b_subset: "cells (transpose_b b) \<subseteq> cells b"
proof
  fix v assume "v \<in> cells (transpose_b b)"
  then obtain j row where "j < min_len b" "row \<in> set b" "v = row ! j"
    by (auto simp: cells_def transpose_b_def)
  moreover from this have "j < length row"
    using min_len_le [of row b] by simp
  ultimately show "v \<in> cells b"
    unfolding cells_def using nth_mem [of j row] by blast
qed

lemma cells_to_left_subset: "cells (to_left direction b) \<subseteq> cells b"
  using cells_transpose_b_subset [of b]
  by (auto simp: to_left_def cells_reverse_b)

lemma cells_from_left_subset: "cells (from_left direction b) \<subseteq> cells b"
  using cells_transpose_b_subset [of b] cells_transpose_b_subset [of "reverse_b b"]
  by (auto simp: from_left_def cells_reverse_b)

subsection \<open>Square boards\<close>

lemma wf_boardD:
  "wf_board n b \<Longrightarrow> length b = n"
  "wf_board n b \<Longrightarrow> r < n \<Longrightarrow> length (b ! r) = n"
  "wf_board n b \<Longrightarrow> row \<in> set b \<Longrightarrow> length row = n"
  by (auto simp: wf_board_def list_all_iff)

lemma wf_boardI:
  "length b = n \<Longrightarrow> (\<And>r. r < n \<Longrightarrow> length (b ! r) = n) \<Longrightarrow> wf_board n b"
  by (auto simp: wf_board_def list_all_length)

lemma min_len_wf: "wf_board n b \<Longrightarrow> min_len b = n"
proof (cases "b = []")
  case True
  assume "wf_board n b"
  with True show ?thesis by (simp add: wf_board_def)
next
  case False
  assume "wf_board n b"
  then have "\<forall>row\<in>set b. length row = n" by (simp add: wf_board_def list_all_iff)
  with False show ?thesis by (rule min_len_const)
qed

lemma transpose_b_wf_eq:
  "wf_board n b \<Longrightarrow> transpose_b b = map (\<lambda>j. map (\<lambda>row. row ! j) b) [0..<n]"
  by (simp add: transpose_b_def min_len_wf)

lemma transpose_b_nth:
  "wf_board n b \<Longrightarrow> r < n \<Longrightarrow> c < n \<Longrightarrow> transpose_b b ! r ! c = b ! c ! r"
  by (simp add: transpose_b_wf_eq wf_boardD)

lemma wf_transpose_b: "wf_board n b \<Longrightarrow> wf_board n (transpose_b b)"
  by (rule wf_boardI) (simp_all add: transpose_b_wf_eq wf_boardD)

lemma board_eqI:
  assumes "wf_board n a" "wf_board n b"
    and "\<And>r c. r < n \<Longrightarrow> c < n \<Longrightarrow> a ! r ! c = b ! r ! c"
  shows "a = b"
proof (rule nth_equalityI)
  show "length a = length b" using assms(1,2) by (simp add: wf_boardD)
next
  fix r assume "r < length a"
  then have r: "r < n" using assms(1) by (simp add: wf_boardD)
  show "a ! r = b ! r"
    by (rule nth_equalityI) (use r assms in \<open>simp_all add: wf_boardD\<close>)
qed

lemma transpose_b_twice:
  assumes wf: "wf_board n b"
  shows "transpose_b (transpose_b b) = b"
proof (rule board_eqI [of n])
  show "wf_board n (transpose_b (transpose_b b))"
    by (intro wf_transpose_b wf)
  show "wf_board n b" by (rule wf)
  fix r c assume "r < n" "c < n"
  then show "transpose_b (transpose_b b) ! r ! c = b ! r ! c"
    by (simp add: transpose_b_nth [OF wf_transpose_b [OF wf]] transpose_b_nth [OF wf])
qed

lemma wf_reverse_b: "wf_board n b \<Longrightarrow> wf_board n (reverse_b b)"
  by (simp add: wf_board_def reverse_b_def list_all_iff)

lemma wf_map_line_reducer: "wf_board n b \<Longrightarrow> wf_board n (map (line_reducer n) b)"
  by (simp add: wf_board_def list_all_iff length_line_reducer)

lemma cells_wf: "wf_board n b \<Longrightarrow> cells b = {v. \<exists>r<n. \<exists>c<n. v = b ! r ! c}"
  unfolding cells_def wf_board_def list_all_iff
  by (fastforce simp: in_set_conv_nth)

lemma cells_transpose_b:
  assumes wf: "wf_board n b"
  shows "cells (transpose_b b) = cells b"
  unfolding cells_wf [OF wf] cells_wf [OF wf_transpose_b [OF wf]]
  using transpose_b_nth [OF wf] by (auto; metis)

lemma wf_to_left: "wf_board n b \<Longrightarrow> wf_board n (to_left direction b)"
  by (simp add: to_left_def wf_transpose_b wf_reverse_b)

lemma wf_from_left: "wf_board n b \<Longrightarrow> wf_board n (from_left direction b)"
  by (simp add: from_left_def wf_transpose_b wf_reverse_b)

lemma from_left_to_left:
  assumes "wf_board n b"
  shows "from_left direction (to_left direction b) = b"
  using transpose_b_twice [OF assms]
  by (simp add: from_left_def to_left_def reverse_b_twice)

lemma to_left_from_left:
  assumes "wf_board n t"
  shows "to_left direction (from_left direction t) = t"
  using transpose_b_twice [OF assms] transpose_b_twice [OF wf_reverse_b [OF assms]]
  by (simp add: from_left_def to_left_def reverse_b_twice)

lemma cells_from_left:
  assumes "wf_board n t"
  shows "cells (from_left direction t) = cells t"
  using cells_transpose_b [OF assms] cells_transpose_b [OF wf_reverse_b [OF assms]]
  by (simp add: from_left_def cells_reverse_b)

lemma from_left_inj:
  assumes "wf_board n s" "wf_board n t" "from_left direction s = from_left direction t"
  shows "s = t"
proof -
  have "s = to_left direction (from_left direction s)"
    by (simp only: to_left_from_left [OF assms(1)])
  also have "\<dots> = to_left direction (from_left direction t)"
    by (simp only: assms(3))
  also have "\<dots> = t"
    by (simp only: to_left_from_left [OF assms(2)])
  finally show ?thesis .
qed

subsection \<open>The number of non-zero cells\<close>

lemma nonzeros_sum: "nonzeros row = (\<Sum>c = 0..<length row. if row ! c \<noteq> 0 then 1 else 0)"
proof -
  have "nonzeros row = sum_list (map (\<lambda>v. if v \<noteq> 0 then 1 else 0) row)"
    by (induction row) (simp_all add: nonzeros_def)
  also have "\<dots> = (\<Sum>c = 0..<length row. if row ! c \<noteq> 0 then 1 else 0)"
    unfolding sum_list_sum_nth length_map by (rule sum.cong) simp_all
  finally show ?thesis .
qed

lemma nz_count_sum:
  assumes "wf_board n b"
  shows "nz_count b = (\<Sum>r = 0..<n. \<Sum>c = 0..<n. if b ! r ! c \<noteq> 0 then 1 else 0)"
proof -
  have "nz_count b = (\<Sum>r = 0..<length b. nonzeros (b ! r))"
    unfolding nz_count_def sum_list_sum_nth length_map by (rule sum.cong) simp_all
  also have "\<dots> = (\<Sum>r = 0..<n. nonzeros (b ! r))"
    using assms by (simp add: wf_boardD)
  also have "\<dots> = (\<Sum>r = 0..<n. \<Sum>c = 0..<n. if b ! r ! c \<noteq> 0 then 1 else 0)"
    using assms by (intro sum.cong refl) (simp add: nonzeros_sum wf_boardD)
  finally show ?thesis .
qed

lemma nz_count_transpose_b:
  assumes "wf_board n b"
  shows "nz_count (transpose_b b) = nz_count b"
proof -
  have "nz_count (transpose_b b) =
          (\<Sum>r = 0..<n. \<Sum>c = 0..<n. if transpose_b b ! r ! c \<noteq> 0 then 1 else 0)"
    by (rule nz_count_sum [OF wf_transpose_b [OF assms]])
  also have "\<dots> = (\<Sum>r = 0..<n. \<Sum>c = 0..<n. if b ! c ! r \<noteq> 0 then 1 else 0)"
    by (intro sum.cong refl) (simp add: transpose_b_nth [OF assms])
  also have "\<dots> = (\<Sum>c = 0..<n. \<Sum>r = 0..<n. if b ! c ! r \<noteq> 0 then 1 else 0)"
    by (rule sum.swap)
  also have "\<dots> = nz_count b"
    by (rule nz_count_sum [OF assms, symmetric])
  finally show ?thesis .
qed

lemma nz_count_reverse_b: "nz_count (reverse_b b) = nz_count b"
proof -
  have "nonzeros (rev row) = nonzeros row" for row
    by (simp add: nonzeros_def rev_filter [symmetric])
  then show ?thesis
    by (simp add: nz_count_def reverse_b_def comp_def)
qed

lemma nz_count_to_left:
  assumes "wf_board n b"
  shows "nz_count (to_left direction b) = nz_count b"
  using nz_count_transpose_b [OF assms]
  by (simp add: to_left_def nz_count_reverse_b)

lemma nz_count_from_left:
  assumes "wf_board n t"
  shows "nz_count (from_left direction t) = nz_count t"
  using nz_count_transpose_b [OF assms] nz_count_transpose_b [OF wf_reverse_b [OF assms]]
  by (simp add: from_left_def nz_count_reverse_b)

lemma sum_list_le_eq:
  fixes f g :: "'a \<Rightarrow> nat"
  assumes "\<forall>x\<in>set xs. f x \<le> g x" and "sum_list (map f xs) = sum_list (map g xs)"
  shows "\<forall>x\<in>set xs. f x = g x"
  using assms
proof (induction xs)
  case Nil
  then show ?case by simp
next
  case (Cons x xs)
  have "sum_list (map f xs) \<le> sum_list (map g xs)"
    using Cons.prems(1) by (intro sum_list_mono) simp
  moreover have "f x \<le> g x" using Cons.prems(1) by simp
  ultimately have "f x = g x" "sum_list (map f xs) = sum_list (map g xs)"
    using Cons.prems(2) by simp_all
  with Cons.IH Cons.prems(1) show ?case by simp
qed

section \<open>The board rewrite of \<open>move\<close>\<close>

lemma move_board_eq:
  "valid_direction direction \<Longrightarrow>
   move_board direction g =
     Some ((credit (merges (to_left direction (board g))) g)
             \<lparr>board := from_left direction
                 (map (line_reducer (size_g g)) (to_left direction (board g)))\<rparr>)"
  by (auto simp: valid_direction_def move_board_def move_left_eq2 to_left_def from_left_def)

lemma move_board_None: "\<not> valid_direction direction \<Longrightarrow> move_board direction g = None"
  by (simp add: valid_direction_def move_board_def)

lemma move_board_Some_valid: "move_board direction g = Some g' \<Longrightarrow> valid_direction direction"
  by (rule ccontr) (simp add: move_board_None)

lemma merges_Nil_iff: "merges b = [] \<longleftrightarrow> (\<forall>row\<in>set b. merged_vals (compress row) = [])"
  by (simp add: merges_def)

lemma reduced_fixed_no_merges:
  assumes "map (line_reducer n) t = t"
  shows "merges t = []"
proof -
  have "map (line_reducer n) t = map (\<lambda>row. row) t"
    using assms by simp
  then have "\<forall>row\<in>set t. line_reducer n row = row"
    by (simp only: map_eq_conv)
  then show ?thesis
    by (auto simp: merges_Nil_iff dest: line_reducer_fixed_no_merge)
qed

text \<open>
  A rewrite that gives back the board it started from has merged nothing. For \<open>w\<close> and
  \<open>s\<close> this holds for boards of any shape: \<open>zip\<close> cuts a ragged board down, and the
  lengths of the result then force the case of a rectangular board.
\<close>

lemma transposed_fixed_no_merges:
  assumes len: "\<And>x. length (k x) = length x"
    and inv: "\<And>x. k (k x) = x"
    and fixd: "transpose_b (map (\<lambda>row. k (line_reducer n (k row))) (transpose_b b)) = b"
  shows "\<forall>row\<in>set (transpose_b b). line_reducer n (k row) = k row \<or>
           length (k row) \<le> length (merge_pairs (compress (k row)))"
proof (cases "transpose_b b = []")
  case True
  then show ?thesis by simp
next
  case False
  let ?t = "transpose_b b"
  let ?h = "\<lambda>row. k (line_reducer n (k row))"
  let ?m = "map ?h ?t"
  let ?r = "length b"
  have mne: "?m \<noteq> []" using False by simp
  have "min_len b \<noteq> 0" using False by (simp add: transpose_b_def)
  then have r: "0 < ?r" by (cases b) auto
  have trow: "length row = ?r" if "row \<in> set ?t" for row
    using that by (rule length_row_transpose_b)
  have hlen: "length (?h row) = max n (length (merge_pairs (compress (k row))))" for row
    by (simp add: len length_line_reducer_max)
  have "length (transpose_b ?m) = min_len ?m" by (rule length_transpose_b)
  then have minm: "min_len ?m = ?r" by (simp only: fixd)
  have ge: "?r \<le> length (?h row)" if "row \<in> set ?t" for row
    using min_len_le [of "?h row" ?m] that minm by auto
  from min_len_attained [OF mne] minm obtain row0 where
    row0: "row0 \<in> set ?t" "length (?h row0) = ?r" by auto
  have "n \<le> ?r" using row0(2) hlen [of row0] by simp
  show ?thesis
  proof (cases "n < ?r")
    case True
    show ?thesis
    proof
      fix row assume row: "row \<in> set ?t"
      have "?r \<le> max n (length (merge_pairs (compress (k row))))"
        using ge [OF row] hlen [of row] by simp
      with True have "?r \<le> length (merge_pairs (compress (k row)))" by simp
      then show "line_reducer n (k row) = k row \<or>
           length (k row) \<le> length (merge_pairs (compress (k row)))"
        by (simp add: len trow [OF row])
    qed
  next
    case False
    with \<open>n \<le> ?r\<close> have n: "n = ?r" by simp
    have mrows: "\<forall>row\<in>set ?m. length row = ?r"
    proof
      fix x assume "x \<in> set ?m"
      then obtain row where row: "row \<in> set ?t" "x = ?h row" by auto
      have "length (merge_pairs (compress (k row))) \<le> length (k row)"
        by (rule length_merge_pairs_compress_le)
      then show "length x = ?r"
        using hlen [of row] by (simp add: row(2) n len trow [OF row(1)])
    qed
    have "?t = transpose_b (transpose_b ?m)" by (simp only: fixd)
    also have "\<dots> = ?m" by (rule transpose_b_twice_rect [OF mrows r])
    finally have "map ?h ?t = map (\<lambda>row. row) ?t" by simp
    then have "\<forall>row\<in>set ?t. ?h row = row" by (simp only: map_eq_conv)
    then have "\<forall>row\<in>set ?t. line_reducer n (k row) = k row"
      using inv by metis
    then show ?thesis by simp
  qed
qed

lemma transposed_fixed_merges:
  assumes len: "\<And>x. length (k x) = length x"
    and inv: "\<And>x. k (k x) = x"
    and fixd: "transpose_b (map (\<lambda>row. k (line_reducer n (k row))) (transpose_b b)) = b"
  shows "merges (map k (transpose_b b)) = []"
proof -
  have "merged_vals (compress (k row)) = []" if "row \<in> set (transpose_b b)" for row
    using transposed_fixed_no_merges [of k n b, OF len inv fixd] that
      line_reducer_fixed_no_merge [of n "k row"] full_length_no_merge [of "k row"]
    by blast
  then show ?thesis by (simp add: merges_Nil_iff)
qed

lemma same_board_no_merges:
  assumes v: "valid_direction direction"
    and same: "from_left direction (map (line_reducer n) (to_left direction b)) = b"
  shows "merges (to_left direction b) = []"
proof -
  consider "direction = ''w''" | "direction = ''s''" | "direction = ''a''" | "direction = ''d''"
    using v by (auto simp: valid_direction_def)
  then show ?thesis
  proof cases
    case 1
    have "transpose_b (map (\<lambda>row. line_reducer n row) (transpose_b b)) = b"
      using same by (simp add: 1 from_left_def to_left_def)
    then have "merges (map (\<lambda>row. row) (transpose_b b)) = []"
      by (intro transposed_fixed_merges [where k = "\<lambda>row. row" and n = n]) simp_all
    then show ?thesis by (simp add: 1 to_left_def)
  next
    case 2
    have "transpose_b (map (\<lambda>row. rev (line_reducer n (rev row))) (transpose_b b)) = b"
      using same by (simp add: 2 from_left_def to_left_def reverse_b_def comp_def)
    then have "merges (map rev (transpose_b b)) = []"
      by (intro transposed_fixed_merges [where k = rev and n = n]) simp_all
    then show ?thesis by (simp add: 2 to_left_def reverse_b_def)
  next
    case 3
    have "map (line_reducer n) b = b"
      using same by (simp add: 3 from_left_def to_left_def)
    then show ?thesis by (simp add: 3 to_left_def reduced_fixed_no_merges)
  next
    case 4
    have "reverse_b (map (line_reducer n) (reverse_b b)) = b"
      using same by (simp add: 4 from_left_def to_left_def)
    then have "reverse_b (reverse_b (map (line_reducer n) (reverse_b b))) = reverse_b b"
      by simp
    then have "map (line_reducer n) (reverse_b b) = reverse_b b"
      by (simp only: reverse_b_twice)
    then show ?thesis by (simp add: 4 to_left_def reduced_fixed_no_merges)
  qed
qed

lemma move_board_same_board_any:
  assumes mb: "move_board direction g = Some g'" and same: "board g' = board g"
  shows "g' = g"
proof -
  let ?t = "to_left direction (board g)"
  have v: "valid_direction direction" using mb by (rule move_board_Some_valid)
  have g': "g' = (credit (merges ?t) g)
      \<lparr>board := from_left direction (map (line_reducer (size_g g)) ?t)\<rparr>"
    using mb move_board_eq [OF v, of g] by simp
  then have "from_left direction (map (line_reducer (size_g g)) ?t) = board g"
    using same by simp
  then have "merges ?t = []" by (rule same_board_no_merges [OF v])
  with g' same show ?thesis by simp
qed

lemma move_board_changed_zero:
  assumes sq: "square g" and v: "valid_direction direction"
    and mb: "move_board direction g = Some g'" and ch: "board g' \<noteq> board g"
  shows "0 \<in> cells (board g')"
proof -
  let ?n = "size_g g"
  let ?t = "to_left direction (board g)"
  let ?m = "map (line_reducer ?n) ?t"
  have wf: "wf_board ?n (board g)" using sq by (simp add: square_def)
  have wft: "wf_board ?n ?t" by (rule wf_to_left [OF wf])
  have g': "board g' = from_left direction ?m"
    using mb move_board_eq [OF v, of g] by auto
  have "?m \<noteq> ?t"
    using ch g' from_left_to_left [OF wf, of direction] by auto
  then obtain row where row: "row \<in> set ?t" "line_reducer ?n row \<noteq> row"
    by (metis map_idI)
  then have "length row = ?n" using wft by (simp add: wf_boardD)
  then have "0 \<in> set (line_reducer ?n row)"
    using row(2) by (rule line_reducer_changed_has_zero)
  then have "0 \<in> cells ?m"
    using row(1) by (auto simp: cells_def)
  then show ?thesis
    by (simp add: g' cells_from_left [OF wf_map_line_reducer [OF wft]])
qed

lemma square_move_board:
  assumes sq: "square g" and v: "valid_direction direction"
    and mb: "move_board direction g = Some g'"
  shows "square g'"
proof -
  have wf: "wf_board (size_g g) (board g)" using sq by (simp add: square_def)
  show ?thesis
    using mb move_board_eq [OF v, of g]
    by (auto simp: square_def intro!: wf_from_left wf_map_line_reducer wf_to_left wf)
qed

lemma slide_only_no_merges:
  assumes "nz_count (map (line_reducer n) t) = nz_count t"
  shows "merges t = []"
proof -
  have "\<forall>row\<in>set t. nonzeros (line_reducer n row) = nonzeros row"
    using assms
    by (intro sum_list_le_eq) (simp_all add: nz_count_def comp_def nonzeros_line_reducer_le)
  then have "\<forall>row\<in>set t. merged_vals (compress row) = []"
    using nonzeros_line_reducer_merged [of n] by (metis add_cancel_right_right length_0_conv)
  then show ?thesis by (simp add: merges_Nil_iff)
qed

lemma map_line_reducer_idem:
  assumes "merges t = []"
  shows "map (line_reducer n) (map (line_reducer n) t) = map (line_reducer n) t"
  using assms by (simp add: merges_Nil_iff line_reducer_idem)

lemma move_board_slide_idem:
  assumes sq: "square g" and v: "valid_direction direction"
    and mb: "move_board direction g = Some g1"
    and nz: "nz_count (board g1) = nz_count (board g)"
  shows "move_board direction g1 = Some g1"
proof -
  let ?n = "size_g g"
  let ?t = "to_left direction (board g)"
  let ?m = "map (line_reducer ?n) ?t"
  have wf: "wf_board ?n (board g)" using sq by (simp add: square_def)
  have wft: "wf_board ?n ?t" by (rule wf_to_left [OF wf])
  have wfm: "wf_board ?n ?m" by (rule wf_map_line_reducer [OF wft])
  have g1: "g1 = (credit (merges ?t) g)\<lparr>board := from_left direction ?m\<rparr>"
    using mb move_board_eq [OF v, of g] by simp
  have "nz_count ?m = nz_count ?t"
    using nz by (simp add: g1 nz_count_from_left [OF wfm] nz_count_to_left [OF wf])
  then have nom: "merges ?t = []" by (rule slide_only_no_merges)
  have tl: "to_left direction (board g1) = ?m"
    by (simp add: g1 to_left_from_left [OF wfm])
  have nom': "merges ?m = []"
    using nom by (auto simp: merges_Nil_iff line_reducer_no_merge compress_id)
  have "move_board direction g1 =
          Some ((credit (merges ?m) g1)\<lparr>board := from_left direction (map (line_reducer ?n) ?m)\<rparr>)"
    using move_board_eq [OF v, of g1] by (simp add: tl) (simp add: g1)
  also have "\<dots> = Some g1"
    by (simp add: nom' map_line_reducer_idem [OF nom] del: map_map) (simp add: g1)
  finally show ?thesis .
qed

lemma move_board_twice_iff:
  assumes sq: "square g" and mb: "move_board direction g = Some g1"
  shows "move_board direction g1 = Some g1 \<longleftrightarrow> \<not> mergeable direction (board g1)"
proof -
  let ?n = "size_g g"
  let ?f = "line_reducer ?n"
  let ?t = "to_left direction (board g)"
  let ?m = "map ?f ?t"
  have v: "valid_direction direction" using mb by (rule move_board_Some_valid)
  have wf: "wf_board ?n (board g)" using sq by (simp add: square_def)
  have wft: "wf_board ?n ?t" by (rule wf_to_left [OF wf])
  have wfm: "wf_board ?n ?m" by (rule wf_map_line_reducer [OF wft])
  have wfmm: "wf_board ?n (map ?f ?m)" by (rule wf_map_line_reducer [OF wfm])
  have g1: "g1 = (credit (merges ?t) g)\<lparr>board := from_left direction ?m\<rparr>"
    using mb move_board_eq [OF v, of g] by simp
  have n1: "size_g g1 = ?n" by (simp add: g1)
  have tl: "to_left direction (board g1) = ?m"
    by (simp add: g1 to_left_from_left [OF wfm])
  have b1: "board g1 = from_left direction ?m" by (simp add: g1)
  have mb1: "move_board direction g1 =
      Some ((credit (merges ?m) g1)\<lparr>board := from_left direction (map ?f ?m)\<rparr>)"
    using move_board_eq [OF v, of g1] by (simp add: tl n1)
  have fixed: "map ?f ?m = ?m \<longleftrightarrow> \<not> mergeable direction (board g1)"
  proof -
    have "map ?f ?m = ?m \<longleftrightarrow> map ?f ?m = map (\<lambda>row. row) ?m" by simp
    also have "\<dots> \<longleftrightarrow> (\<forall>row\<in>set ?m. ?f row = row)" by (simp only: map_eq_conv)
    also have "\<dots> \<longleftrightarrow> (\<forall>row\<in>set ?t. ?f (?f row) = ?f row)" by simp
    also have "\<dots> \<longleftrightarrow> (\<forall>row\<in>set ?t. \<not> mergeable_row (?f row))"
      by (simp only: line_reducer_twice_iff)
    also have "\<dots> \<longleftrightarrow> \<not> mergeable direction (board g1)"
      by (simp add: mergeable_def tl list_ex_iff)
    finally show ?thesis .
  qed
  show ?thesis
  proof
    assume "move_board direction g1 = Some g1"
    then have "from_left direction (map ?f ?m) = from_left direction ?m"
      unfolding mb1 using b1 by (metis game.select_convs(2) game.surjective game.update_convs(2) option.inject)
    then have "map ?f ?m = ?m" by (rule from_left_inj [OF wfmm wfm])
    then show "\<not> mergeable direction (board g1)" using fixed by blast
  next
    assume "\<not> mergeable direction (board g1)"
    then have eq: "map ?f ?m = ?m" using fixed by blast
    then have nom: "merges ?m = []" by (rule reduced_fixed_no_merges)
    have "(credit (merges ?m) g1)\<lparr>board := from_left direction (map ?f ?m)\<rparr>
            = g1\<lparr>board := board g1\<rparr>"
      unfolding nom eq b1 by simp
    then show "move_board direction g1 = Some g1"
      unfolding mb1 by simp
  qed
qed

section \<open>The scans of the board\<close>

lemma set_coords: "set (coords n) = {..<n} \<times> {..<n}"
  by (auto simp: coords_def)

lemma cell_wf: "wf_board n b \<Longrightarrow> r < n \<Longrightarrow> c < n \<Longrightarrow> cell b r c = Inr (b ! r ! c)"
  by (simp add: cell_def wf_boardD)

lemma collect_empty_wf:
  "wf_board n b \<Longrightarrow> set cs \<subseteq> {..<n} \<times> {..<n} \<Longrightarrow>
   collect_empty b cs = Inr (filter (\<lambda>(r, c). b ! r ! c = 0) cs)"
  by (induction cs) (auto simp: cell_wf)

lemma scan_empty_wf:
  "wf_board n b \<Longrightarrow> set cs \<subseteq> {..<n} \<times> {..<n} \<Longrightarrow>
   scan_empty b cs = Inr (\<exists>(r, c)\<in>set cs. b ! r ! c = 0)"
  by (induction cs) (auto simp: cell_wf)

lemma cells_equal_wf:
  "wf_board n b \<Longrightarrow> r < n \<Longrightarrow> c < n \<Longrightarrow> r' < n \<Longrightarrow> c' < n \<Longrightarrow>
   cells_equal b r c r' c' = Inr (b ! r ! c = b ! r' ! c')"
  by (simp add: cells_equal_def cell_wf)

lemma scan_pairs_wf:
  "wf_board n b \<Longrightarrow> set cs \<subseteq> {..<n} \<times> {..<n} \<Longrightarrow>
   scan_pairs n b cs =
     Inr (\<exists>(r, c)\<in>set cs. (c + 1 < n \<and> b ! r ! c = b ! r ! (c + 1)) \<or>
                           (r + 1 < n \<and> b ! r ! c = b ! (r + 1) ! c))"
proof (induction cs)
  case Nil
  then show ?case by simp
next
  case (Cons x cs)
  obtain r c where x: "x = (r, c)" by (cases x)
  from Cons.prems have rc: "r < n" "c < n" and sub: "set cs \<subseteq> {..<n} \<times> {..<n}"
    by (auto simp: x)
  note IH = Cons.IH [OF Cons.prems(1) sub]
  have h: "Suc c < n \<Longrightarrow> cells_equal b r c r (Suc c) = Inr (b ! r ! c = b ! r ! Suc c)"
    using rc Cons.prems(1) by (intro cells_equal_wf) auto
  have v: "Suc r < n \<Longrightarrow> cells_equal b r c (Suc r) c = Inr (b ! r ! c = b ! Suc r ! c)"
    using rc Cons.prems(1) by (intro cells_equal_wf) auto
  show ?case
    unfolding x scan_pairs.simps IH
    by (cases "c + 1 < n"; cases "r + 1 < n") (auto simp: h v split: bool.splits)
qed

lemma is_game_over_square:
  assumes "square g"
  shows "is_game_over g =
     Inr ((\<forall>r<size_g g. \<forall>c<size_g g. board g ! r ! c \<noteq> 0) \<and>
          (\<forall>r<size_g g. \<forall>c<size_g g.
             (c + 1 < size_g g \<longrightarrow> board g ! r ! c \<noteq> board g ! r ! (c + 1)) \<and>
             (r + 1 < size_g g \<longrightarrow> board g ! r ! c \<noteq> board g ! (r + 1) ! c)))"
proof -
  have wf: "wf_board (size_g g) (board g)" using assms by (simp add: square_def)
  have sub: "set (coords (size_g g)) \<subseteq> {..<size_g g} \<times> {..<size_g g}"
    by (simp add: set_coords)
  show ?thesis
    unfolding is_game_over_def scan_empty_wf [OF wf sub] scan_pairs_wf [OF wf sub]
    by (auto simp: set_coords split: bool.splits)
qed

lemma empty_cells_square:
  assumes "square g"
  shows "empty_cells g = Inr (filter (\<lambda>(r, c). board g ! r ! c = 0) (coords (size_g g)))"
  using assms unfolding empty_cells_def square_def
  by (rule collect_empty_wf) (auto simp: set_coords)

lemma zero_cell_iff:
  "wf_board n b \<Longrightarrow> 0 \<in> cells b \<longleftrightarrow> (\<exists>r<n. \<exists>c<n. b ! r ! c = 0)"
  by (auto simp: cells_wf)

lemma add_new_tile_full:
  assumes "square g" "0 \<notin> cells (board g)"
  shows "add_new_tile d g = Inr g"
proof -
  have wf: "wf_board (size_g g) (board g)" using assms by (simp add: square_def)
  have "filter (\<lambda>(r, c). board g ! r ! c = 0) (coords (size_g g)) = []"
    using assms(2) by (auto simp: filter_empty_conv set_coords zero_cell_iff [OF wf])
  then show ?thesis
    by (simp add: add_new_tile_def empty_cells_square [OF assms(1)])
qed

lemma add_new_tile_spawn:
  assumes "square g" "0 \<in> cells (board g)"
  shows "\<exists>r<size_g g. \<exists>c<size_g g. board g ! r ! c = 0 \<and>
           add_new_tile d g =
             Inr (g\<lparr>board := (board g)[r := (board g ! r)[c := (if snd d then 4 else 2)]]\<rparr>)"
proof -
  let ?n = "size_g g"
  let ?es = "filter (\<lambda>(r, c). board g ! r ! c = 0) (coords ?n)"
  have wf: "wf_board ?n (board g)" using assms by (simp add: square_def)
  have ne: "?es \<noteq> []"
    using assms(2) by (auto simp: filter_empty_conv set_coords zero_cell_iff [OF wf])
  obtain r c where rc: "?es ! (fst d mod length ?es) = (r, c)"
    by (cases "?es ! (fst d mod length ?es)") 
  have "?es ! (fst d mod length ?es) \<in> set ?es"
    using ne by (intro nth_mem) simp
  then have "r < ?n" "c < ?n" "board g ! r ! c = 0"
    unfolding rc by (auto simp: set_coords)
  moreover have "add_new_tile d g =
      Inr (g\<lparr>board := (board g)[r := (board g ! r)[c := (if snd d then 4 else 2)]]\<rparr>)"
    using ne rc by (simp add: add_new_tile_def empty_cells_square [OF assms(1)])
  ultimately show ?thesis by blast
qed

lemma wf_board_update:
  "wf_board n b \<Longrightarrow> wf_board n (b[r := (b ! r)[c := v]])"
  unfolding wf_board_def list_all_length
  by (cases "r < length b") (auto simp: nth_list_update)

lemma add_new_tile_square:
  assumes "square g"
  shows "\<exists>g'. add_new_tile d g = Inr g' \<and> square g' \<and> size_g g' = size_g g \<and>
          score g' = score g \<and> win_value g' = win_value g \<and> game_won g' = game_won g"
proof (cases "0 \<in> cells (board g)")
  case False
  with assms show ?thesis by (simp add: add_new_tile_full)
next
  case True
  from add_new_tile_spawn [OF assms True, of d] assms
  show ?thesis by (auto simp: square_def wf_board_update)
qed

lemma add_new_tile_fields:
  "add_new_tile d g = Inr g' \<Longrightarrow>
     size_g g' = size_g g \<and> score g' = score g \<and> win_value g' = win_value g \<and>
     game_won g' = game_won g"
  by (auto simp: add_new_tile_def split: sum.splits if_splits prod.splits)

lemma add_new_tile_cases:
  assumes "add_new_tile d g = Inr g'"
  shows "g' = g \<or>
         (\<exists>r c. g' = g\<lparr>board := (board g)[r := (board g ! r)[c := (if snd d then 4 else 2)]]\<rparr>)"
proof (cases "empty_cells g")
  case (Inl e)
  then show ?thesis using assms by (simp add: add_new_tile_def)
next
  case (Inr es)
  show ?thesis
  proof (cases "es = []")
    case True
    then show ?thesis using assms Inr by (simp add: add_new_tile_def)
  next
    case False
    obtain r c where "es ! (fst d mod length es) = (r, c)"
      by (cases "es ! (fst d mod length es)")
    then have "g' = g\<lparr>board := (board g)[r := (board g ! r)[c := (if snd d then 4 else 2)]]\<rparr>"
      using assms Inr False by (simp add: add_new_tile_def)
    then show ?thesis by blast
  qed
qed

lemma move_cases:
  assumes "move direction d g = Inr (moved, g')"
  shows "(move_board direction g = None \<and> g' = g) \<or>
         (\<exists>g1. move_board direction g = Some g1 \<and> (g' = g1 \<or> add_new_tile d g1 = Inr g'))"
proof (cases "move_board direction g")
  case None
  then show ?thesis using assms by (simp add: move_def)
next
  case (Some g1)
  show ?thesis
  proof (cases "board g1 = board g")
    case True
    then show ?thesis using assms Some by (simp add: move_def)
  next
    case False
    then show ?thesis using assms Some
      by (cases "add_new_tile d g1") (simp_all add: move_def)
  qed
qed

lemma init_square:
  "\<exists>g. init n d1 d2 = Inr g \<and> square g \<and> size_g g = n \<and> score g = 0 \<and>
        win_value g = 2048 \<and> \<not> game_won g"
proof -
  let ?g0 = "\<lparr>size_g = n, board = replicate n (replicate n 0), score = 0,
              win_value = 2048, game_won = False\<rparr>"
  have "square ?g0" by (simp add: square_def wf_board_def list_all_iff)
  from add_new_tile_square [OF this, of d1] obtain g1 where
    g1: "add_new_tile d1 ?g0 = Inr g1" "square g1" "size_g g1 = n" "score g1 = 0"
        "win_value g1 = 2048" "\<not> game_won g1"
    by auto
  from add_new_tile_square [OF g1(2), of d2] g1 show ?thesis
    by (auto simp: init_def)
qed

lemma coords_4:
  "coords 4 = [(0, 0), (0, 1), (0, 2), (0, 3), (1, 0), (1, 1), (1, 2), (1, 3),
               (2, 0), (2, 1), (2, 2), (2, 3), (3, 0), (3, 1), (3, 2), (3, 3)]"
  by code_simp

lemma empty_count_pos_iff: "0 < empty_count b \<longleftrightarrow> 0 \<in> cells b"
  by (auto simp: empty_count_def cells_def filter_empty_conv)

section \<open>Tile values\<close>

lemma valid_tile_iff: "valid_tile v \<longleftrightarrow> v = 0 \<or> (\<exists>k\<ge>1. v = 2 ^ k)"
proof -
  have "k < nat (2 ^ k)" for k :: nat
    by (simp add: nat_power_eq)
  then show ?thesis
    by (auto simp: valid_tile_def list_ex_iff Suc_le_eq)
qed

lemma valid_tile_simps [simp]: "valid_tile 0" "valid_tile 2" "valid_tile 4"
proof -
  show "valid_tile 0" by (simp add: valid_tile_iff)
  have "(2::int) = 2 ^ 1" "(4::int) = 2 ^ 2" by simp_all
  then show "valid_tile 2" "valid_tile 4"
    unfolding valid_tile_iff by (metis one_le_numeral order_refl)+
qed

lemma valid_tile_double: "valid_tile v \<Longrightarrow> valid_tile (v * 2)"
proof -
  assume "valid_tile v"
  then consider "v = 0" | k where "1 \<le> k" "v = 2 ^ k"
    by (auto simp: valid_tile_iff)
  then show ?thesis
  proof cases
    case 1
    then show ?thesis by simp
  next
    case 2
    then have "v * 2 = 2 ^ Suc k" "1 \<le> Suc k" by simp_all
    then show ?thesis unfolding valid_tile_iff by blast
  qed
qed

lemma valid_board_iff: "valid_board b \<longleftrightarrow> (\<forall>v\<in>cells b. valid_tile v)"
  by (auto simp: valid_board_def cells_def list_all_iff)

lemma merge_pairs_valid:
  "\<forall>v\<in>set xs. valid_tile v \<Longrightarrow> \<forall>v\<in>set (merge_pairs xs). valid_tile v"
  by (induction xs rule: merge_pairs.induct) (auto simp: valid_tile_double)

lemma line_reducer_valid:
  assumes "\<forall>v\<in>set row. valid_tile v"
  shows "\<forall>v\<in>set (line_reducer n row). valid_tile v"
proof -
  have "\<forall>v\<in>set (compress row). valid_tile v"
    using assms by (simp add: compress_def)
  then have "\<forall>v\<in>set (merge_pairs (compress row)). valid_tile v"
    by (rule merge_pairs_valid)
  then show ?thesis by (auto simp: line_reducer_eq)
qed

lemma valid_board_map_line_reducer:
  "valid_board b \<Longrightarrow> valid_board (map (line_reducer n) b)"
  using line_reducer_valid by (auto simp: valid_board_def list_all_iff)

lemma valid_board_move_board:
  assumes "valid_board (board g)" "move_board direction g = Some g'"
  shows "valid_board (board g')"
proof -
  have v: "valid_direction direction" using assms(2) by (rule move_board_Some_valid)
  have "valid_board (to_left direction (board g))"
    using assms(1) cells_to_left_subset [of direction "board g"]
    by (auto simp: valid_board_iff)
  then have "valid_board (map (line_reducer (size_g g)) (to_left direction (board g)))"
    by (rule valid_board_map_line_reducer)
  then have "valid_board (from_left direction
      (map (line_reducer (size_g g)) (to_left direction (board g))))"
    using cells_from_left_subset by (auto simp: valid_board_iff)
  then show ?thesis
    using assms(2) move_board_eq [OF v, of g] by auto
qed

lemma cells_update_subset: "cells (b[r := (b ! r)[c := v]]) \<subseteq> insert v (cells b)"
proof
  fix x assume "x \<in> cells (b[r := (b ! r)[c := v]])"
  then obtain row where row: "row \<in> set (b[r := (b ! r)[c := v]])" "x \<in> set row"
    by (auto simp: cells_def)
  from row(1) have "row \<in> insert ((b ! r)[c := v]) (set b)"
    using set_update_subset_insert by fast
  then show "x \<in> insert v (cells b)"
  proof
    assume "row = (b ! r)[c := v]"
    then have "x \<in> insert v (set (b ! r))"
      using row(2) set_update_subset_insert by fast
    moreover have "r < length b \<or> b[r := (b ! r)[c := v]] = b"
      by (cases "r < length b") (simp_all add: list_update_beyond)
    ultimately show ?thesis
      using row by (auto simp: cells_def)
  next
    assume "row \<in> set b"
    then show ?thesis using row(2) by (auto simp: cells_def)
  qed
qed

lemma valid_board_add_new_tile:
  assumes "valid_board (board g)" "add_new_tile d g = Inr g'"
  shows "valid_board (board g')"
proof -
  have upd: "valid_board ((board g)[r := (board g ! r)[c := (if snd d then 4 else 2)]])" for r c
  proof -
    have "valid_tile (if snd d then 4 else 2)" by simp
    then show ?thesis
      using assms(1) cells_update_subset [of "board g" r c "if snd d then 4 else 2"]
      unfolding valid_board_iff by blast
  qed
  from add_new_tile_cases [OF assms(2)] show ?thesis
  proof
    assume "g' = g"
    then show ?thesis using assms(1) by simp
  next
    assume "\<exists>r c. g' = g\<lparr>board := (board g)[r := (board g ! r)[c := (if snd d then 4 else 2)]]\<rparr>"
    then obtain r c where
      "g' = g\<lparr>board := (board g)[r := (board g ! r)[c := (if snd d then 4 else 2)]]\<rparr>"
      by blast
    then show ?thesis using upd [of r c] by simp
  qed
qed

lemma valid_board_move:
  assumes "valid_board (board g)" "move direction d g = Inr (moved, g')"
  shows "valid_board (board g')"
  using move_cases [OF assms(2)] assms(1)
    valid_board_move_board [of g direction] valid_board_add_new_tile [of _ d g']
  by blast

lemma valid_board_init: "\<exists>g. init n d1 d2 = Inr g \<and> valid_board (board g)"
proof -
  let ?g0 = "\<lparr>size_g = n, board = replicate n (replicate n 0), score = 0,
              win_value = 2048, game_won = False\<rparr>"
  have sq: "square ?g0" by (simp add: square_def wf_board_def list_all_iff)
  have v0: "valid_board (board ?g0)" by (simp add: valid_board_def list_all_iff)
  from add_new_tile_square [OF sq, of d1] obtain g1 where
    g1: "add_new_tile d1 ?g0 = Inr g1" "square g1" by auto
  from add_new_tile_square [OF g1(2), of d2] obtain g2 where
    g2: "add_new_tile d2 g1 = Inr g2" by auto
  have "valid_board (board g2)"
    using valid_board_add_new_tile [OF valid_board_add_new_tile [OF v0 g1(1)] g2] .
  then show ?thesis using g1 g2 by (simp add: init_def)
qed

lemma cells_map_line_reducer:
  "cells (map (line_reducer n) t) \<subseteq> insert 0 (cells t \<union> (\<lambda>v. v * 2) ` cells t)"
  using set_line_reducer_subset [of n] unfolding cells_def by fastforce

lemma cells_move_board:
  assumes "move_board direction g = Some g'"
  shows "cells (board g') \<subseteq> insert 0 (cells (board g) \<union> (\<lambda>v. v * 2) ` cells (board g))"
proof -
  let ?t = "to_left direction (board g)"
  have v: "valid_direction direction" using assms by (rule move_board_Some_valid)
  have "board g' = from_left direction (map (line_reducer (size_g g)) ?t)"
    using assms move_board_eq [OF v, of g] by auto
  then have "cells (board g') \<subseteq> cells (map (line_reducer (size_g g)) ?t)"
    using cells_from_left_subset by simp
  also have "\<dots> \<subseteq> insert 0 (cells ?t \<union> (\<lambda>v. v * 2) ` cells ?t)"
    by (rule cells_map_line_reducer)
  also have "\<dots> \<subseteq> insert 0 (cells (board g) \<union> (\<lambda>v. v * 2) ` cells (board g))"
    using cells_to_left_subset [of direction "board g"] by blast
  finally show ?thesis .
qed

lemma cells_add_new_tile:
  assumes "add_new_tile d g = Inr g'"
  shows "cells (board g') \<subseteq> cells (board g) \<union> {2, 4}"
proof -
  from add_new_tile_cases [OF assms] show ?thesis
  proof
    assume "g' = g"
    then show ?thesis by auto
  next
    assume "\<exists>r c. g' = g\<lparr>board := (board g)[r := (board g ! r)[c := (if snd d then 4 else 2)]]\<rparr>"
    then obtain r c where
      "g' = g\<lparr>board := (board g)[r := (board g ! r)[c := (if snd d then 4 else 2)]]\<rparr>"
      by blast
    then show ?thesis
      using cells_update_subset [of "board g" r c "if snd d then 4 else 2"]
      by (auto split: if_splits)
  qed
qed

lemma cells_move:
  assumes "move direction d g = Inr (moved, g')"
  shows "cells (board g') \<subseteq> {0, 2, 4} \<union> cells (board g) \<union> (\<lambda>v. v * 2) ` cells (board g)"
proof -
  from move_cases [OF assms] show ?thesis
  proof
    assume "move_board direction g = None \<and> g' = g"
    then show ?thesis by auto
  next
    assume "\<exists>g1. move_board direction g = Some g1 \<and> (g' = g1 \<or> add_new_tile d g1 = Inr g')"
    then obtain g1 where g1: "move_board direction g = Some g1"
      and alt: "g' = g1 \<or> add_new_tile d g1 = Inr g'" by blast
    note sub = cells_move_board [OF g1]
    from alt show ?thesis
    proof
      assume "g' = g1"
      with sub show ?thesis by auto
    next
      assume "add_new_tile d g1 = Inr g'"
      from cells_add_new_tile [OF this] sub show ?thesis by auto
    qed
  qed
qed

section \<open>Score and win flag across a call\<close>

lemma move_fields:
  assumes "move direction d g = Inr (moved, g')"
  shows "win_value g' = win_value g \<and> size_g g' = size_g g \<and>
         score g' = score g + sum_list (move_merges direction g) \<and>
         game_won g' = (game_won g \<or> win_value g \<in> set (move_merges direction g))"
proof (cases "valid_direction direction")
  case False
  then show ?thesis
    using assms by (auto simp: move_def move_board_None move_merges_def)
next
  case True
  let ?g1 = "(credit (merges (to_left direction (board g))) g)
      \<lparr>board := from_left direction
         (map (line_reducer (size_g g)) (to_left direction (board g)))\<rparr>"
  have mb: "move_board direction g = Some ?g1" by (rule move_board_eq [OF True])
  have "g' = ?g1 \<or> add_new_tile d ?g1 = Inr g'"
    using move_cases [OF assms] unfolding mb by simp
  then show ?thesis
  proof
    assume "g' = ?g1"
    then show ?thesis using True by (simp add: move_merges_def)
  next
    assume "add_new_tile d ?g1 = Inr g'"
    from add_new_tile_fields [OF this] show ?thesis
      using True by (simp add: move_merges_def)
  qed
qed

lemma add_new_tile_game_won:
  "add_new_tile d (g\<lparr>game_won := w\<rparr>) =
     (case add_new_tile d g of Inl e \<Rightarrow> Inl e | Inr g' \<Rightarrow> Inr (g'\<lparr>game_won := w\<rparr>))"
  by (simp add: add_new_tile_def empty_cells_def split: sum.splits prod.splits)

lemma credit_game_won: "credit vs (g\<lparr>game_won := True\<rparr>) = (credit vs g)\<lparr>game_won := True\<rparr>"
  by (simp add: credit_def)

lemma move_board_game_won:
  "move_board direction (g\<lparr>game_won := True\<rparr>) =
     map_option (\<lambda>g'. g'\<lparr>game_won := True\<rparr>) (move_board direction g)"
proof (cases "valid_direction direction")
  case True
  show ?thesis
    unfolding move_board_eq [OF True] by (simp add: credit_game_won)
next
  case False
  then show ?thesis by (simp add: move_board_None)
qed

lemma move_game_won:
  "move direction d (g\<lparr>game_won := True\<rparr>) =
     (case move direction d g of
        Inl e \<Rightarrow> Inl e
      | Inr (moved, g') \<Rightarrow> Inr (moved, g'\<lparr>game_won := True\<rparr>))"
  unfolding move_def move_board_game_won
  by (cases "move_board direction g") (auto simp: add_new_tile_game_won split: sum.splits)

section \<open>The invariant of reachable games\<close>

lemma square_add_new_tile:
  assumes "square g" "add_new_tile d g = Inr g'"
  shows "square g'"
  using add_new_tile_square [OF assms(1), of d] assms(2) by auto

lemma square_move:
  assumes "square g" "move direction d g = Inr (moved, g')"
  shows "square g'"
proof -
  from move_cases [OF assms(2)] show ?thesis
  proof
    assume "move_board direction g = None \<and> g' = g"
    then show ?thesis using assms(1) by simp
  next
    assume "\<exists>g1. move_board direction g = Some g1 \<and> (g' = g1 \<or> add_new_tile d g1 = Inr g')"
    then obtain g1 where g1: "move_board direction g = Some g1"
      and alt: "g' = g1 \<or> add_new_tile d g1 = Inr g'" by blast
    have "square g1"
      using assms(1) move_board_Some_valid [OF g1] g1 by (rule square_move_board)
    then show ?thesis using alt square_add_new_tile by blast
  qed
qed

lemma reachable_invariant:
  "reachable g \<Longrightarrow> square g \<and> valid_board (board g) \<and> win_value g = 2048"
proof (induction rule: reachable.induct)
  case (reach_init n d1 d2 g)
  then show ?case
    using init_square [of n d1 d2] valid_board_init [of n d1 d2] by auto
next
  case (reach_spawn g d g')
  then show ?case
    using square_add_new_tile valid_board_add_new_tile add_new_tile_fields by metis
next
  case (reach_move g direction d moved g')
  then show ?case
    using square_move valid_board_move move_fields by metis
qed

section \<open>The claims\<close>

subsection \<open>No-op moves\<close>

text \<open>
  C1. For every game state and every valid direction: if the board rewrite of \<open>move\<close>
  yields a board equal to the snapshot taken before it, then \<open>move\<close> returns \<open>False\<close>
  without raising, and the game afterwards (board, score, win flag) is the game before
  the call; no tile is spawned.
\<close>

theorem move_noop_state_unchanged:
  assumes "move_board direction g = Some g'" and "board g' = board g"
  shows "move direction d g = Inr (False, g)"
proof -
  have "g' = g" using assms by (rule move_board_same_board_any)
  then show ?thesis
    using assms(1) by (simp add: move_def)
qed

theorem move_noop_state_unchanged_witness:
  "move_board ''w'' \<lparr>size_g = 2, board = [[2, 4], [0, 0]], score = 7, win_value = 2048, game_won = False\<rparr>
     = Some \<lparr>size_g = 2, board = [[2, 4], [0, 0]], score = 7, win_value = 2048, game_won = False\<rparr> \<and>
   move ''w'' (1, True) \<lparr>size_g = 2, board = [[2, 4], [0, 0]], score = 7, win_value = 2048, game_won = False\<rparr>
     = Inr (False, \<lparr>size_g = 2, board = [[2, 4], [0, 0]], score = 7, win_value = 2048, game_won = False\<rparr>)"
proof -
  let ?g = "\<lparr>size_g = 2, board = [[2, 4], [0, 0]], score = 7, win_value = 2048, game_won = False\<rparr>"
  have mb: "move_board ''w'' ?g = Some ?g" by code_simp
  from move_noop_state_unchanged [OF mb refl, of "(1, True)"] mb
  show ?thesis by simp
qed

subsection \<open>Game over\<close>

text \<open>
  C2. For every \<open>size\<close> by \<open>size\<close> board, \<open>is_game_over\<close> returns \<open>True\<close> exactly when no
  cell is 0 and no cell equals its right neighbour or its lower neighbour, a neighbour
  being looked at only where it exists; it never raises.
\<close>

theorem is_game_over_iff:
  assumes "square g"
  shows "is_game_over g =
     Inr ((\<forall>r<size_g g. \<forall>c<size_g g. board g ! r ! c \<noteq> 0) \<and>
          (\<forall>r<size_g g. \<forall>c<size_g g.
             (c + 1 < size_g g \<longrightarrow> board g ! r ! c \<noteq> board g ! r ! (c + 1)) \<and>
             (r + 1 < size_g g \<longrightarrow> board g ! r ! c \<noteq> board g ! (r + 1) ! c)))"
  using assms by (rule is_game_over_square)

theorem is_game_over_iff_witness:
  "square \<lparr>size_g = 2, board = [[2, 4], [4, 2]], score = 0, win_value = 2048, game_won = False\<rparr> \<and>
   is_game_over \<lparr>size_g = 2, board = [[2, 4], [4, 2]], score = 0, win_value = 2048, game_won = False\<rparr>
     = Inr True"
proof -
  let ?g = "\<lparr>size_g = 2, board = [[2, 4], [4, 2]], score = 0, win_value = 2048, game_won = False\<rparr>"
  have sq: "square ?g" by code_simp
  from is_game_over_iff [OF sq] sq
  show ?thesis by (simp add: numeral_2_eq_2 less_Suc_eq)
qed

subsection \<open>Applying a direction twice\<close>

text \<open>
  C3, as stated, fails: the row \<open>[2, 2, 4, 0]\<close> moved left gives \<open>[4, 4, 0, 0]\<close>, and
  moved left again gives \<open>[8, 0, 0, 0]\<close>, so the second application changes its input.
\<close>

theorem move_board_twice_counterexample:
  "square \<lparr>size_g = 4, board = [[2, 2, 4, 0], [0, 0, 0, 0], [0, 0, 0, 0], [0, 0, 0, 0]],
           score = 0, win_value = 2048, game_won = False\<rparr> \<and>
   move_board ''a'' \<lparr>size_g = 4, board = [[2, 2, 4, 0], [0, 0, 0, 0], [0, 0, 0, 0], [0, 0, 0, 0]],
           score = 0, win_value = 2048, game_won = False\<rparr>
     = Some \<lparr>size_g = 4, board = [[4, 4, 0, 0], [0, 0, 0, 0], [0, 0, 0, 0], [0, 0, 0, 0]],
           score = 4, win_value = 2048, game_won = False\<rparr> \<and>
   move_board ''a'' \<lparr>size_g = 4, board = [[4, 4, 0, 0], [0, 0, 0, 0], [0, 0, 0, 0], [0, 0, 0, 0]],
           score = 4, win_value = 2048, game_won = False\<rparr>
     = Some \<lparr>size_g = 4, board = [[8, 0, 0, 0], [0, 0, 0, 0], [0, 0, 0, 0], [0, 0, 0, 0]],
           score = 12, win_value = 2048, game_won = False\<rparr> \<and>
   [[8, 0, 0, 0], [0, 0, 0, 0], [0, 0, 0, 0], [0, 0, 0, 0]]
     \<noteq> [[4, 4, 0, 0], [0, 0, 0, 0], [0, 0, 0, 0], [0, 0, 0, 0 :: int]]"
proof -
  let ?g = "\<lparr>size_g = 4, board = [[2, 2, 4, 0], [0, 0, 0, 0], [0, 0, 0, 0], [0, 0, 0, 0]],
           score = 0, win_value = 2048, game_won = False\<rparr>"
  let ?g1 = "\<lparr>size_g = 4, board = [[4, 4, 0, 0], [0, 0, 0, 0], [0, 0, 0, 0], [0, 0, 0, 0]],
           score = 4, win_value = 2048, game_won = False\<rparr>"
  let ?g2 = "\<lparr>size_g = 4, board = [[8, 0, 0, 0], [0, 0, 0, 0], [0, 0, 0, 0], [0, 0, 0, 0]],
           score = 12, win_value = 2048, game_won = False\<rparr>"
  have 1: "square ?g" by (simp add: square_def wf_board_def)
  have 2: "move_board ''a'' ?g = Some ?g1" by code_simp
  have 3: "move_board ''a'' ?g1 = Some ?g2" by code_simp
  from 1 2 3 show ?thesis by simp
qed

text \<open>
  C3, amended. For every \<open>size\<close> by \<open>size\<close> board and every valid direction, with no
  spawn in between: the second application of the board rewrite yields its input
  unchanged exactly when the board produced by the first application has no two equal
  non-zero cells next to each other along the line of the move; in particular whenever
  the first application merged nothing, that is, left the number of non-zero cells
  unchanged. \<open>move\<close> on such a state returns \<open>False\<close>.
\<close>

theorem move_board_twice_unchanged_iff:
  assumes "square g" and "move_board direction g = Some g1"
  shows "(move_board direction g1 = Some g1 \<longleftrightarrow> \<not> mergeable direction (board g1)) \<and>
         (nz_count (board g1) = nz_count (board g) \<longrightarrow> move_board direction g1 = Some g1) \<and>
         (move_board direction g1 = Some g1 \<longrightarrow> move direction d g1 = Inr (False, g1))"
proof -
  have v: "valid_direction direction" using assms(2) by (rule move_board_Some_valid)
  have 1: "move_board direction g1 = Some g1 \<longleftrightarrow> \<not> mergeable direction (board g1)"
    using assms by (rule move_board_twice_iff)
  have 2: "move_board direction g1 = Some g1" if "nz_count (board g1) = nz_count (board g)"
    using assms(1) v assms(2) that by (rule move_board_slide_idem)
  have 3: "move direction d g1 = Inr (False, g1)" if "move_board direction g1 = Some g1"
    using that by (simp add: move_def)
  from 1 2 3 show ?thesis by blast
qed

theorem move_board_twice_unchanged_iff_witness:
  "square \<lparr>size_g = 2, board = [[2, 2], [4, 0]], score = 0, win_value = 2048, game_won = False\<rparr> \<and>
   move_board ''a'' \<lparr>size_g = 2, board = [[2, 2], [4, 0]], score = 0, win_value = 2048, game_won = False\<rparr>
     = Some \<lparr>size_g = 2, board = [[4, 0], [4, 0]], score = 4, win_value = 2048, game_won = False\<rparr> \<and>
   \<not> mergeable ''a'' [[4, 0], [4, 0]] \<and>
   move_board ''a'' \<lparr>size_g = 2, board = [[4, 0], [4, 0]], score = 4, win_value = 2048, game_won = False\<rparr>
     = Some \<lparr>size_g = 2, board = [[4, 0], [4, 0]], score = 4, win_value = 2048, game_won = False\<rparr> \<and>
   move ''a'' (0, False) \<lparr>size_g = 2, board = [[4, 0], [4, 0]], score = 4, win_value = 2048, game_won = False\<rparr>
     = Inr (False, \<lparr>size_g = 2, board = [[4, 0], [4, 0]], score = 4, win_value = 2048, game_won = False\<rparr>) \<and>
   square \<lparr>size_g = 2, board = [[0, 2], [4, 0]], score = 0, win_value = 2048, game_won = False\<rparr> \<and>
   move_board ''w'' \<lparr>size_g = 2, board = [[0, 2], [4, 0]], score = 0, win_value = 2048, game_won = False\<rparr>
     = Some \<lparr>size_g = 2, board = [[4, 2], [0, 0]], score = 0, win_value = 2048, game_won = False\<rparr> \<and>
   nz_count [[4, 2], [0, 0]] = nz_count [[0, 2], [4, 0]] \<and>
   move_board ''w'' \<lparr>size_g = 2, board = [[4, 2], [0, 0]], score = 0, win_value = 2048, game_won = False\<rparr>
     = Some \<lparr>size_g = 2, board = [[4, 2], [0, 0]], score = 0, win_value = 2048, game_won = False\<rparr>"
proof -
  let ?g = "\<lparr>size_g = 2, board = [[2, 2], [4, 0]], score = 0, win_value = 2048, game_won = False\<rparr>"
  let ?g1 = "\<lparr>size_g = 2, board = [[4, 0], [4, 0]], score = 4, win_value = 2048, game_won = False\<rparr>"
  let ?h = "\<lparr>size_g = 2, board = [[0, 2], [4, 0]], score = 0, win_value = 2048, game_won = False\<rparr>"
  let ?h1 = "\<lparr>size_g = 2, board = [[4, 2], [0, 0]], score = 0, win_value = 2048, game_won = False\<rparr>"
  have 1: "square ?g" by (simp add: square_def wf_board_def)
  have 2: "move_board ''a'' ?g = Some ?g1" by code_simp
  have 3: "\<not> mergeable ''a'' (board ?g1)" by (simp add: mergeable_def to_left_def)
  have 4: "square ?h" by (simp add: square_def wf_board_def)
  have 5: "move_board ''w'' ?h = Some ?h1" by code_simp
  have 6: "nz_count (board ?h1) = nz_count (board ?h)" by (simp add: nz_count_def nonzeros_def)
  from move_board_twice_unchanged_iff [OF 1 2, of "(0, False)"] 3
  have a: "move_board ''a'' ?g1 = Some ?g1 \<and> move ''a'' (0, False) ?g1 = Inr (False, ?g1)"
    by simp
  from move_board_twice_unchanged_iff [OF 4 5, of "(0, False)"] 6
  have b: "move_board ''w'' ?h1 = Some ?h1" by simp
  from 1 2 3 4 5 6 a b show ?thesis by simp
qed

subsection \<open>Counts, sums and score of one row\<close>

text \<open>
  C4, as stated, fails: for the row \<open>[2, 2, 0, 0]\<close> the output \<open>[4, 0, 0, 0]\<close> has the same
  sum as the input, while 4 is added to the score.
\<close>

theorem move_left_row_sum_counterexample:
  "\<not> (nonzeros (fst (move_left_row [2, 2, 0, 0]
          \<lparr>size_g = 4, board = [], score = 0, win_value = 2048, game_won = False\<rparr>))
        \<le> nonzeros [2, 2, 0, 0] \<and>
       sum_list [2, 2, 0, 0]
        \<le> sum_list (fst (move_left_row [2, 2, 0, 0]
          \<lparr>size_g = 4, board = [], score = 0, win_value = 2048, game_won = False\<rparr>)) \<and>
       sum_list (fst (move_left_row [2, 2, 0, 0]
          \<lparr>size_g = 4, board = [], score = 0, win_value = 2048, game_won = False\<rparr>))
         - sum_list [2, 2, 0, 0]
        = score (snd (move_left_row [2, 2, 0, 0]
          \<lparr>size_g = 4, board = [], score = 0, win_value = 2048, game_won = False\<rparr>))
         - score \<lparr>size_g = 4, board = [], score = 0, win_value = 2048, game_won = False\<rparr>)"
proof -
  have "move_left_row [2, 2, 0, 0]
          \<lparr>size_g = 4, board = [], score = 0, win_value = 2048, game_won = False\<rparr>
        = ([4, 0, 0, 0], \<lparr>size_g = 4, board = [], score = 4, win_value = 2048, game_won = False\<rparr>)"
    by code_simp
  then show ?thesis by simp
qed

text \<open>
  C4, amended. For every input row, the row produced by the move-left primitive has the
  same or fewer non-zero entries, the sum of its values equals the sum of the input row,
  and the amount added to the score is the sum of the values of the cells produced by
  merges.
\<close>

theorem move_left_row_count_sum_score:
  "nonzeros (fst (move_left_row row g)) \<le> nonzeros row \<and>
   sum_list (fst (move_left_row row g)) = sum_list row \<and>
   score (snd (move_left_row row g)) = score g + sum_list (merged_vals (compress row))"
  by (simp add: move_left_row_eq nonzeros_line_reducer_le sum_list_line_reducer)

theorem move_left_row_count_sum_score_witness:
  "nonzeros (fst (move_left_row [2, 2, 0, 0]
      \<lparr>size_g = 4, board = [], score = 0, win_value = 2048, game_won = False\<rparr>)) \<le> 2 \<and>
   sum_list (fst (move_left_row [2, 2, 0, 0]
      \<lparr>size_g = 4, board = [], score = 0, win_value = 2048, game_won = False\<rparr>)) = 4 \<and>
   score (snd (move_left_row [2, 2, 0, 0]
      \<lparr>size_g = 4, board = [], score = 0, win_value = 2048, game_won = False\<rparr>)) = 4"
  using move_left_row_count_sum_score [of "[2, 2, 0, 0]"
      "\<lparr>size_g = 4, board = [], score = 0, win_value = 2048, game_won = False\<rparr>"]
  by (simp add: nonzeros_def compress_def)

subsection \<open>A single empty cell\<close>

text \<open>
  C5, as stated, fails: on a 4 by 4 board with exactly one empty cell and no two equal
  neighbours \<open>is_game_over\<close> returns \<open>False\<close>, since its first scan returns at the empty
  cell.
\<close>

theorem is_game_over_one_empty_counterexample:
  "size_g \<lparr>size_g = 4, board = [[0, 2, 4, 8], [2, 4, 8, 16], [4, 8, 16, 32], [8, 16, 32, 64]],
           score = 0, win_value = 2048, game_won = False\<rparr> = 4 \<and>
   square \<lparr>size_g = 4, board = [[0, 2, 4, 8], [2, 4, 8, 16], [4, 8, 16, 32], [8, 16, 32, 64]],
           score = 0, win_value = 2048, game_won = False\<rparr> \<and>
   empty_count [[0, 2, 4, 8], [2, 4, 8, 16], [4, 8, 16, 32], [8, 16, 32, 64]] = 1 \<and>
   \<not> adjacent_equal 4 [[0, 2, 4, 8], [2, 4, 8, 16], [4, 8, 16, 32], [8, 16, 32, 64]] \<and>
   is_game_over \<lparr>size_g = 4, board = [[0, 2, 4, 8], [2, 4, 8, 16], [4, 8, 16, 32], [8, 16, 32, 64]],
           score = 0, win_value = 2048, game_won = False\<rparr> = Inr False"
proof -
  let ?b = "[[0, 2, 4, 8], [2, 4, 8, 16], [4, 8, 16, 32], [8, 16, 32, 64 :: int]]"
  let ?g = "\<lparr>size_g = 4, board = ?b, score = 0, win_value = 2048, game_won = False\<rparr>"
  have 1: "square ?g" by (simp add: square_def wf_board_def)
  have 2: "empty_count ?b = 1" by (simp add: empty_count_def)
  have 3: "\<not> adjacent_equal 4 ?b" by (simp add: adjacent_equal_def coords_4)
  have 4: "is_game_over ?g = Inr False" by (simp add: is_game_over_def coords_4 cell_def)
  from 1 2 3 4 show ?thesis by simp
qed

text \<open>
  C5, amended. For every 4 by 4 board that has exactly one empty cell and in which no two
  horizontally or vertically adjacent cells hold equal values, \<open>is_game_over\<close> returns
  \<open>False\<close>.
\<close>

theorem is_game_over_one_empty:
  assumes "size_g g = 4" and "square g" and "empty_count (board g) = 1"
    and "\<not> adjacent_equal 4 (board g)"
  shows "is_game_over g = Inr False"
proof -
  have wf: "wf_board (size_g g) (board g)" using assms(2) by (simp add: square_def)
  have "0 \<in> cells (board g)"
    using assms(3) empty_count_pos_iff [of "board g"] by simp
  then have "\<exists>r<size_g g. \<exists>c<size_g g. board g ! r ! c = 0"
    by (simp add: zero_cell_iff [OF wf])
  then show ?thesis
    unfolding is_game_over_square [OF assms(2)] by auto
qed

theorem is_game_over_one_empty_witness:
  "size_g \<lparr>size_g = 4, board = [[2, 4, 2, 4], [4, 2, 4, 2], [2, 4, 0, 4], [4, 2, 4, 2]],
           score = 0, win_value = 2048, game_won = False\<rparr> = 4 \<and>
   square \<lparr>size_g = 4, board = [[2, 4, 2, 4], [4, 2, 4, 2], [2, 4, 0, 4], [4, 2, 4, 2]],
           score = 0, win_value = 2048, game_won = False\<rparr> \<and>
   empty_count [[2, 4, 2, 4], [4, 2, 4, 2], [2, 4, 0, 4], [4, 2, 4, 2]] = 1 \<and>
   \<not> adjacent_equal 4 [[2, 4, 2, 4], [4, 2, 4, 2], [2, 4, 0, 4], [4, 2, 4, 2]] \<and>
   is_game_over \<lparr>size_g = 4, board = [[2, 4, 2, 4], [4, 2, 4, 2], [2, 4, 0, 4], [4, 2, 4, 2]],
           score = 0, win_value = 2048, game_won = False\<rparr> = Inr False"
proof -
  let ?g = "\<lparr>size_g = 4, board = [[2, 4, 2, 4], [4, 2, 4, 2], [2, 4, 0, 4], [4, 2, 4, 2]],
           score = 0, win_value = 2048, game_won = False\<rparr>"
  have 1: "size_g ?g = 4" by simp
  have 2: "square ?g" by (simp add: square_def wf_board_def)
  have 3: "empty_count (board ?g) = 1" by (simp add: empty_count_def)
  have 4: "\<not> adjacent_equal 4 (board ?g)" by (simp add: adjacent_equal_def coords_4)
  from is_game_over_one_empty [OF 1 2 3 4] 2 3 4 show ?thesis by simp
qed

subsection \<open>The move-left primitive refines the line reducer\<close>

text \<open>
  C6. For every input row, the row computed by the loop of \<open>_move_left\<close> is the one the
  specification describes: zeros removed in order, one left-to-right pass of pair merges
  without chaining, zeros appended up to length \<open>size\<close> (the result has length \<open>size\<close>
  whenever the input is no longer than that). On a board of size 4 the row
  \<open>[2, 2, 2, 2]\<close> becomes \<open>[4, 4, 0, 0]\<close> and 8 is added to the score.
\<close>

theorem move_left_row_refines:
  "fst (move_left_row row g) = line_reducer (size_g g) row \<and>
   (length row \<le> size_g g \<longrightarrow> length (fst (move_left_row row g)) = size_g g) \<and>
   (size_g g = 4 \<longrightarrow>
      fst (move_left_row [2, 2, 2, 2] g) = [4, 4, 0, 0] \<and>
      score (snd (move_left_row [2, 2, 2, 2] g)) = score g + 8)"
  by (simp add: move_left_row_eq length_line_reducer)
     (simp add: line_reducer_eq compress_def numeral_2_eq_2)

theorem move_left_row_refines_witness:
  "length [2, 0, 2, 4 :: int]
     \<le> size_g \<lparr>size_g = 4, board = [], score = 0, win_value = 2048, game_won = False\<rparr> \<and>
   size_g \<lparr>size_g = 4, board = [], score = 0, win_value = 2048, game_won = False\<rparr> = 4 \<and>
   fst (move_left_row [2, 0, 2, 4]
      \<lparr>size_g = 4, board = [], score = 0, win_value = 2048, game_won = False\<rparr>) = [4, 4, 0, 0] \<and>
   length (fst (move_left_row [2, 0, 2, 4]
      \<lparr>size_g = 4, board = [], score = 0, win_value = 2048, game_won = False\<rparr>)) = 4 \<and>
   fst (move_left_row [2, 2, 2, 2]
      \<lparr>size_g = 4, board = [], score = 0, win_value = 2048, game_won = False\<rparr>) = [4, 4, 0, 0] \<and>
   score (snd (move_left_row [2, 2, 2, 2]
      \<lparr>size_g = 4, board = [], score = 0, win_value = 2048, game_won = False\<rparr>)) = 8"
  using move_left_row_refines [of "[2, 0, 2, 4]"
      "\<lparr>size_g = 4, board = [], score = 0, win_value = 2048, game_won = False\<rparr>"]
  by (simp add: line_reducer_eq compress_def numeral_2_eq_2)

subsection \<open>The win flag\<close>

text \<open>
  C7. The constructor returns a game whose win flag is \<open>False\<close> and whose win value is
  2048, and the win value of every reachable game is 2048. After \<open>move\<close> the flag is set
  exactly when it was set before or a merge of this call produced the win value, so it
  is never reset; \<open>add_new_tile\<close> leaves it alone; and \<open>move\<close> on a game whose flag is
  set does what it does on the same game with the flag clear, except that the flag stays
  set: a win blocks nothing.
\<close>

theorem win_flag_monotone:
  "(\<exists>g0. init n d1 d2 = Inr g0 \<and> \<not> game_won g0 \<and> win_value g0 = 2048) \<and>
   (reachable g \<longrightarrow> win_value g = 2048) \<and>
   (move direction d g = Inr (moved, g') \<longrightarrow>
      win_value g' = win_value g \<and>
      game_won g' = (game_won g \<or> win_value g \<in> set (move_merges direction g))) \<and>
   (add_new_tile d g = Inr g'' \<longrightarrow> win_value g'' = win_value g \<and> game_won g'' = game_won g) \<and>
   move direction d (g\<lparr>game_won := True\<rparr>) =
     (case move direction d g of
        Inl e \<Rightarrow> Inl e
      | Inr (moved, g') \<Rightarrow> Inr (moved, g'\<lparr>game_won := True\<rparr>))"
  using init_square [of n d1 d2] move_fields [of direction d g moved g']
    add_new_tile_fields [of d g g''] move_game_won [of direction d g] reachable_invariant [of g]
  by blast

theorem win_flag_monotone_witness:
  "(\<exists>g0. init 2 (0, False) (1, True) = Inr g0 \<and> \<not> game_won g0 \<and> win_value g0 = 2048) \<and>
   reachable \<lparr>size_g = 2, board = [[4, 4], [0, 0]], score = 0, win_value = 2048, game_won = False\<rparr> \<and>
   add_new_tile (0, False)
       \<lparr>size_g = 2, board = [[4, 4], [0, 0]], score = 0, win_value = 2048, game_won = False\<rparr>
     = Inr \<lparr>size_g = 2, board = [[4, 4], [2, 0]], score = 0, win_value = 2048, game_won = False\<rparr> \<and>
   move ''a'' (0, False)
       \<lparr>size_g = 2, board = [[4, 4], [0, 0]], score = 0, win_value = 2048, game_won = False\<rparr>
     = Inr (True,
         \<lparr>size_g = 2, board = [[8, 2], [0, 0]], score = 8, win_value = 2048, game_won = False\<rparr>) \<and>
   2048 \<notin> set (move_merges ''a''
       \<lparr>size_g = 2, board = [[4, 4], [0, 0]], score = 0, win_value = 2048, game_won = False\<rparr>) \<and>
   move ''a'' (0, False)
       \<lparr>size_g = 2, board = [[1024, 1024], [0, 0]], score = 0, win_value = 2048, game_won = False\<rparr>
     = Inr (True,
         \<lparr>size_g = 2, board = [[2048, 2], [0, 0]], score = 2048, win_value = 2048, game_won = True\<rparr>) \<and>
   2048 \<in> set (move_merges ''a''
       \<lparr>size_g = 2, board = [[1024, 1024], [0, 0]], score = 0, win_value = 2048, game_won = False\<rparr>) \<and>
   move ''a'' (0, False)
       \<lparr>size_g = 2, board = [[1024, 1024], [0, 0]], score = 0, win_value = 2048, game_won = True\<rparr>
     = Inr (True,
         \<lparr>size_g = 2, board = [[2048, 2], [0, 0]], score = 2048, win_value = 2048, game_won = True\<rparr>)"
proof -
  let ?g = "\<lparr>size_g = 2, board = [[4, 4], [0, 0]], score = 0, win_value = 2048, game_won = False\<rparr>"
  let ?g' = "\<lparr>size_g = 2, board = [[8, 2], [0, 0]], score = 8, win_value = 2048, game_won = False\<rparr>"
  let ?g'' = "\<lparr>size_g = 2, board = [[4, 4], [2, 0]], score = 0, win_value = 2048, game_won = False\<rparr>"
  let ?h = "\<lparr>size_g = 2, board = [[1024, 1024], [0, 0]], score = 0, win_value = 2048, game_won = False\<rparr>"
  let ?h' = "\<lparr>size_g = 2, board = [[2048, 2], [0, 0]], score = 2048, win_value = 2048, game_won = True\<rparr>"
  have 0: "init 2 (0, True) (0, True) = Inr ?g" by code_simp
  then have 1: "reachable ?g" by (rule reach_init)
  have 2: "move ''a'' (0, False) ?g = Inr (True, ?g')" by code_simp
  have 3: "add_new_tile (0, False) ?g = Inr ?g''" by code_simp
  have 4: "move ''a'' (0, False) ?h = Inr (True, ?h')" by code_simp
  from win_flag_monotone [where n = 2 and ?d1.0 = "(0, False)" and ?d2.0 = "(1, True)"
      and g = ?g and d = "(0, False)" and g' = ?g' and direction = "''a''" and moved = True
      and g'' = ?g''] 1 2 3
  have a: "(\<exists>g0. init 2 (0, False) (1, True) = Inr g0 \<and> \<not> game_won g0 \<and> win_value g0 = 2048) \<and>
      2048 \<notin> set (move_merges ''a'' ?g)"
    by simp
  from win_flag_monotone [where g = ?h and d = "(0, False)" and g' = ?h' and direction = "''a''"
      and moved = True] 4
  have b: "2048 \<in> set (move_merges ''a'' ?h) \<and>
      move ''a'' (0, False) (?h\<lparr>game_won := True\<rparr>) = Inr (True, ?h')"
    by simp
  from a b 1 2 3 4 show ?thesis by simp
qed

subsection \<open>Tiles are 0 or powers of two\<close>

text \<open>
  C8. Every cell of the board the constructor returns is 0 or a power of two that is at
  least 2. \<open>add_new_tile\<close> adds no value but 2 or 4 and \<open>move\<close> none but 0, 2, 4 and the
  doubles of values already there, so both keep this property of the board, and it
  holds in every reachable game.
\<close>

theorem tiles_zero_or_power_of_two:
  "(\<exists>g0. init n d1 d2 = Inr g0 \<and> valid_board (board g0)) \<and>
   (add_new_tile d g = Inr g' \<longrightarrow>
      cells (board g') \<subseteq> cells (board g) \<union> {2, 4} \<and>
      (valid_board (board g) \<longrightarrow> valid_board (board g'))) \<and>
   (move direction d g = Inr (moved, g'') \<longrightarrow>
      cells (board g'') \<subseteq> {0, 2, 4} \<union> cells (board g) \<union> (\<lambda>v. v * 2) ` cells (board g) \<and>
      (valid_board (board g) \<longrightarrow> valid_board (board g''))) \<and>
   (reachable g \<longrightarrow> valid_board (board g))"
  using valid_board_init [of n d1 d2] valid_board_add_new_tile [of g d g']
    valid_board_move [of g direction d moved g''] cells_add_new_tile [of d g g']
    cells_move [of direction d g moved g''] reachable_invariant [of g]
  by blast

theorem tiles_zero_or_power_of_two_witness:
  "(\<exists>g0. init 2 (0, False) (1, True) = Inr g0 \<and> valid_board (board g0)) \<and>
   init 2 (0, True) (0, True)
     = Inr \<lparr>size_g = 2, board = [[4, 4], [0, 0]], score = 0, win_value = 2048, game_won = False\<rparr> \<and>
   reachable \<lparr>size_g = 2, board = [[4, 4], [0, 0]], score = 0, win_value = 2048, game_won = False\<rparr> \<and>
   valid_board [[4, 4], [0, 0]] \<and>
   add_new_tile (0, True)
       \<lparr>size_g = 2, board = [[4, 4], [0, 0]], score = 0, win_value = 2048, game_won = False\<rparr>
     = Inr \<lparr>size_g = 2, board = [[4, 4], [4, 0]], score = 0, win_value = 2048, game_won = False\<rparr> \<and>
   valid_board [[4, 4], [4, 0]] \<and>
   move ''a'' (0, True)
       \<lparr>size_g = 2, board = [[4, 4], [0, 0]], score = 0, win_value = 2048, game_won = False\<rparr>
     = Inr (True,
         \<lparr>size_g = 2, board = [[8, 4], [0, 0]], score = 8, win_value = 2048, game_won = False\<rparr>) \<and>
   valid_board [[8, 4], [0, 0]]"
proof -
  let ?g = "\<lparr>size_g = 2, board = [[4, 4], [0, 0]], score = 0, win_value = 2048, game_won = False\<rparr>"
  let ?g' = "\<lparr>size_g = 2, board = [[4, 4], [4, 0]], score = 0, win_value = 2048, game_won = False\<rparr>"
  let ?g'' = "\<lparr>size_g = 2, board = [[8, 4], [0, 0]], score = 8, win_value = 2048, game_won = False\<rparr>"
  have 0: "init 2 (0, True) (0, True) = Inr ?g" by code_simp
  then have 1: "reachable ?g" by (rule reach_init)
  have 2: "add_new_tile (0, True) ?g = Inr ?g'" by code_simp
  have 3: "move ''a'' (0, True) ?g = Inr (True, ?g'')" by code_simp
  from tiles_zero_or_power_of_two [where n = 2 and ?d1.0 = "(0, False)" and ?d2.0 = "(1, True)"
      and g = ?g and d = "(0, True)" and g' = ?g' and direction = "''a''" and moved = True
      and g'' = ?g''] 0 1 2 3
  show ?thesis by simp
qed

subsection \<open>Invalid directions\<close>

text \<open>
  C9. For every game state and every direction outside \<open>w\<close>, \<open>s\<close>, \<open>a\<close>, \<open>d\<close>, \<open>move\<close>
  returns \<open>False\<close> without raising, and the game (board, score, win flag) is the one it
  was given: nothing is spawned.
\<close>

theorem move_invalid_direction:
  "\<not> valid_direction direction \<Longrightarrow> move direction d g = Inr (False, g)"
  by (simp add: move_def move_board_def valid_direction_def)

theorem move_invalid_direction_witness:
  "\<not> valid_direction ''x'' \<and>
   move ''x'' (0, False) \<lparr>size_g = 2, board = [[2, 0], [0, 2]], score = 0,
     win_value = 2048, game_won = False\<rparr>
   = Inr (False, \<lparr>size_g = 2, board = [[2, 0], [0, 2]], score = 0,
     win_value = 2048, game_won = False\<rparr>)"
  using move_invalid_direction [of "''x''" "(0, False)"
    "\<lparr>size_g = 2, board = [[2, 0], [0, 2]], score = 0, win_value = 2048, game_won = False\<rparr>"]
  by (simp add: valid_direction_def)

subsection \<open>A move that changes the board leaves room for the new tile\<close>

text \<open>
  C10. For every \<open>size\<close> by \<open>size\<close> board and every valid direction: if the board rewrite
  of \<open>move\<close> changes the board, the new board has a cell equal to 0, the list of empty
  cells that \<open>add_new_tile\<close> collects is not empty, and \<open>move\<close> returns \<open>True\<close> with the
  new board in which exactly one cell, empty before, now holds 2 or 4.
\<close>

theorem move_changed_spawns_one_tile:
  assumes "square g" and "move_board direction g = Some g'" and "board g' \<noteq> board g"
  shows "(\<exists>r<size_g g'. \<exists>c<size_g g'. board g' ! r ! c = 0) \<and>
         (\<exists>es. empty_cells g' = Inr es \<and> es \<noteq> []) \<and>
         (\<exists>r<size_g g'. \<exists>c<size_g g'. board g' ! r ! c = 0 \<and>
            move direction d g =
              Inr (True, g'\<lparr>board := (board g')
                     [r := (board g' ! r)[c := (if snd d then 4 else 2)]]\<rparr>))"
proof -
  have v: "valid_direction direction" using assms(2) by (rule move_board_Some_valid)
  have sq': "square g'" using assms(1) v assms(2) by (rule square_move_board)
  then have wf': "wf_board (size_g g') (board g')" by (simp add: square_def)
  have z: "0 \<in> cells (board g')"
    using assms(1) v assms(2,3) by (rule move_board_changed_zero)
  then have 1: "\<exists>r<size_g g'. \<exists>c<size_g g'. board g' ! r ! c = 0"
    by (simp add: zero_cell_iff [OF wf'])
  then have "filter (\<lambda>(r, c). board g' ! r ! c = 0) (coords (size_g g')) \<noteq> []"
    by (auto simp: filter_empty_conv set_coords)
  then have 2: "\<exists>es. empty_cells g' = Inr es \<and> es \<noteq> []"
    by (simp add: empty_cells_square [OF sq'])
  from add_new_tile_spawn [OF sq' z, of d] obtain r c where
    rc: "r < size_g g'" "c < size_g g'" "board g' ! r ! c = 0"
      "add_new_tile d g' =
         Inr (g'\<lparr>board := (board g')[r := (board g' ! r)[c := (if snd d then 4 else 2)]]\<rparr>)"
    by blast
  have "move direction d g =
          Inr (True, g'\<lparr>board := (board g')
                 [r := (board g' ! r)[c := (if snd d then 4 else 2)]]\<rparr>)"
    using assms(2,3) rc(4) by (simp add: move_def)
  with rc(1-3)
  have 3: "\<exists>r<size_g g'. \<exists>c<size_g g'. board g' ! r ! c = 0 \<and>
            move direction d g =
              Inr (True, g'\<lparr>board := (board g')
                     [r := (board g' ! r)[c := (if snd d then 4 else 2)]]\<rparr>)"
    by blast
  from 1 2 3 show ?thesis by blast
qed

theorem move_changed_spawns_one_tile_witness:
  "square \<lparr>size_g = 2, board = [[2, 0], [0, 2]], score = 0, win_value = 2048, game_won = False\<rparr> \<and>
   move_board ''a'' \<lparr>size_g = 2, board = [[2, 0], [0, 2]], score = 0, win_value = 2048, game_won = False\<rparr>
     = Some \<lparr>size_g = 2, board = [[2, 0], [2, 0]], score = 0, win_value = 2048, game_won = False\<rparr> \<and>
   (\<exists>es. empty_cells \<lparr>size_g = 2, board = [[2, 0], [2, 0]], score = 0, win_value = 2048,
                        game_won = False\<rparr> = Inr es \<and> es \<noteq> []) \<and>
   (\<exists>r<2. \<exists>c<2. [[2, 0], [2, 0 :: int]] ! r ! c = 0 \<and>
      move ''a'' (1, False) \<lparr>size_g = 2, board = [[2, 0], [0, 2]], score = 0, win_value = 2048,
                                game_won = False\<rparr>
        = Inr (True, \<lparr>size_g = 2, board = [[2, 0], [2, 0]] [r := ([[2, 0], [2, 0]] ! r)[c := 2]],
                       score = 0, win_value = 2048, game_won = False\<rparr>))"
proof -
  let ?g = "\<lparr>size_g = 2, board = [[2, 0], [0, 2]], score = 0, win_value = 2048, game_won = False\<rparr>"
  let ?g' = "\<lparr>size_g = 2, board = [[2, 0], [2, 0]], score = 0, win_value = 2048, game_won = False\<rparr>"
  have sq: "square ?g" by code_simp
  have mb: "move_board ''a'' ?g = Some ?g'" by code_simp
  have ch: "board ?g' \<noteq> board ?g" by simp
  from move_changed_spawns_one_tile [OF sq mb ch, of "(1, False)"] sq mb
  show ?thesis by simp
qed

end
